theory Spec2Isabelle
  imports Main
begin

section \<open>The client idle filter (src/core/ext/filters/client_idle/client_idle_filter.cc)\<close>

text \<open>
  The filter keeps an atomic call counter, an atomic \<open>ChannelState\<close> and a plain
  \<open>last_idle_time_\<close> field, and coordinates them with one \<open>grpc_timer\<close>.
  Its three procedures (\<open>IncreaseCallCount\<close>, \<open>DecreaseCallCount\<close>,
  \<open>IdleTimerCallback\<close>) run on different threads, so each procedure is embedded as a
  small-step function: one step performs at most one access to the shared fields
  (one \<open>fetch_add\<close>, one \<open>load\<close>, one \<open>store\<close>, one
  \<open>compare_exchange_weak\<close>, one timer call), and the local variable \<open>state\<close>
  of the source's retry loops is carried in the program counter. Atomics are read and
  written in one global order (sequential consistency); the \<open>std::memory_order\<close>
  arguments of the source are kept as labels of the recorded actions.

  \<open>intptr_t\<close> and \<open>grpc_millis\<close> are modelled as \<open>int\<close>: the counter counts
  live call elements and the times are milliseconds, neither comes near the
  machine bounds. The trace macro \<open>GRPC_IDLE_FILTER_LOG\<close> has no effect on the
  filter and is left out.
\<close>

datatype ChannelState =
    IDLE
  | CALLS_ACTIVE
  | TIMER_PENDING
  | TIMER_PENDING_CALLS_ACTIVE
  | TIMER_PENDING_CALLS_SEEN_SINCE_TIMER_START
  | PROCESSING

datatype memory_order = memory_order_relaxed | memory_order_acquire | memory_order_release

text \<open>
  Modelled from the spec: the one-shot \<open>grpc_timer\<close> of src/core/lib/iomgr/timer.h,
  which is not among the sources. The spec's state table gives the timer as unset or
  armed, its \<open>timer_fires(cancelled?)\<close> event delivers the callback either normally or
  as cancelled, and \<open>disconnect\<close> cancels the timer even when it has already fired.
  \<open>Timer_Pending d\<close> is an armed timer with deadline \<open>d\<close>; \<open>Timer_Cancelled\<close> is
  a cancelled timer whose callback has still to be delivered with an error.
\<close>

datatype grpc_timer = Timer_Unset | Timer_Pending int | Timer_Cancelled

definition grpc_timer_init :: "int \<Rightarrow> grpc_timer \<Rightarrow> grpc_timer" where
  "grpc_timer_init deadline tm = Timer_Pending deadline"

definition grpc_timer_cancel :: "grpc_timer \<Rightarrow> grpc_timer" where
  "grpc_timer_cancel tm = (case tm of Timer_Pending d \<Rightarrow> Timer_Cancelled | _ \<Rightarrow> tm)"

text \<open>
  What the timer subsystem does when it runs the closure of a timer: \<open>Some error\<close> is
  the callback's \<open>error \<noteq> GRPC_ERROR_NONE\<close> argument, \<open>None\<close> means that no callback
  is owed.
\<close>

definition grpc_timer_fire :: "grpc_timer \<Rightarrow> bool option" where
  "grpc_timer_fire tm =
     (case tm of Timer_Unset \<Rightarrow> None | Timer_Pending d \<Rightarrow> Some False | Timer_Cancelled \<Rightarrow> Some True)"

record ChannelData =
  client_idle_timeout :: int
  last_idle_time :: int
  call_count :: int
  state :: ChannelState
  idle_timer :: grpc_timer

text \<open>
  The constructor: \<open>call_count_{0}\<close>, \<open>state_{IDLE}\<close>,
  \<open>grpc_timer_init_unset(&idle_timer_)\<close>. \<open>last_idle_time_\<close> has no initialiser, so
  its first value is a parameter.
\<close>

definition ChannelData_new :: "int \<Rightarrow> int \<Rightarrow> ChannelData" where
  "ChannelData_new timeout uninitialised =
     \<lparr>client_idle_timeout = timeout, last_idle_time = uninitialised, call_count = 0,
      state = IDLE, idle_timer = Timer_Unset\<rparr>"

datatype ref_reason = Max_idle_timer_callback | Idle_transport_op

text \<open>
  Everything a step does to the shared fields or to a collaborator is recorded as an
  action: the atomic operations with the value they returned and the memory order the
  source passes, the write of \<open>last_idle_time_\<close>, the timer calls, the references taken
  on the channel stack, and the transport ops sent down the stack (\<open>Enter_Idle\<close> is
  \<open>grpc_channel_next_op(elem_, &idle_transport_op_)\<close> of \<open>EnterIdle()\<close>).
\<close>

datatype action =
    Fetch_Add int memory_order
  | Fetch_Sub int memory_order
  | Load ChannelState memory_order
  | Store ChannelState memory_order
  | CAS_Ok ChannelState ChannelState memory_order
  | CAS_Fail ChannelState ChannelState memory_order
  | Write_Last_Idle_Time int
  | Timer_Init int
  | Timer_Cancel
  | Stack_Ref ref_reason
  | Stack_Unref ref_reason
  | Enter_Idle
  | Next_Op

text \<open>
  \<open>state_.compare_exchange_weak(expected, desired, success, failure)\<close>: it succeeds
  only if the stored value is \<open>expected\<close>, and being weak it may fail even then
  (\<open>spurious\<close>). On failure \<open>expected\<close> is overwritten with the stored value. The
  result is the returned flag, the new \<open>expected\<close>, the new shared state and the action.
\<close>

definition compare_exchange_weak ::
  "bool \<Rightarrow> ChannelState \<Rightarrow> ChannelState \<Rightarrow> memory_order \<Rightarrow> memory_order \<Rightarrow> ChannelData
     \<Rightarrow> bool \<times> ChannelState \<times> ChannelData \<times> action" where
  "compare_exchange_weak spurious expected desired success failure s =
     (if state s = expected \<and> \<not> spurious
      then (True, expected, s\<lparr>state := desired\<rparr>, CAS_Ok expected desired success)
      else (False, state s, s, CAS_Fail expected (state s) failure))"

definition StartIdleTimer :: "ChannelData \<Rightarrow> ChannelData \<times> action list" where
  "StartIdleTimer s =
     (let deadline = last_idle_time s + client_idle_timeout s
      in (s\<lparr>idle_timer := grpc_timer_init deadline (idle_timer s)\<rparr>,
          [Stack_Ref Max_idle_timer_callback, Timer_Init deadline]))"

definition EnterIdle :: "ChannelData \<Rightarrow> ChannelData \<times> action list" where
  "EnterIdle s = (s, [Stack_Ref Idle_transport_op, Enter_Idle])"

subsection \<open>IncreaseCallCount\<close>

datatype inc_pc = Inc_fetch_add | Inc_load | Inc_switch ChannelState

text \<open>
  The result of a step is the next program counter (\<open>None\<close>: the procedure has
  returned), the shared state and the actions performed.
\<close>

fun IncreaseCallCount_step ::
  "bool \<Rightarrow> inc_pc \<Rightarrow> ChannelData \<Rightarrow> inc_pc option \<times> ChannelData \<times> action list" where
  "IncreaseCallCount_step spurious Inc_fetch_add s =
     (let previous_value = call_count s
      in (if previous_value = 0 then Some Inc_load else None,
          s\<lparr>call_count := previous_value + 1\<rparr>,
          [Fetch_Add previous_value memory_order_relaxed]))"
| "IncreaseCallCount_step spurious Inc_load s =
     (Some (Inc_switch (state s)), s, [Load (state s) memory_order_relaxed])"
| "IncreaseCallCount_step spurious (Inc_switch st) s =
     (case st of
        IDLE \<Rightarrow> (None, s\<lparr>state := CALLS_ACTIVE\<rparr>, [Store CALLS_ACTIVE memory_order_relaxed])
      | TIMER_PENDING \<Rightarrow>
          (case compare_exchange_weak spurious st TIMER_PENDING_CALLS_ACTIVE
                  memory_order_acquire memory_order_relaxed s of
             (ok, st', s', a) \<Rightarrow> (if ok then None else Some (Inc_switch st'), s', [a]))
      | TIMER_PENDING_CALLS_SEEN_SINCE_TIMER_START \<Rightarrow>
          (case compare_exchange_weak spurious st TIMER_PENDING_CALLS_ACTIVE
                  memory_order_acquire memory_order_relaxed s of
             (ok, st', s', a) \<Rightarrow> (if ok then None else Some (Inc_switch st'), s', [a]))
      | _ \<Rightarrow> (Some (Inc_switch (state s)), s, [Load (state s) memory_order_relaxed]))"

subsection \<open>DecreaseCallCount\<close>

datatype dec_pc =
    Dec_fetch_sub
  | Dec_last_idle_time
  | Dec_load
  | Dec_switch ChannelState
  | Dec_store_TIMER_PENDING

text \<open>\<open>now\<close> is the value of \<open>ExecCtx::Get()->Now()\<close>.\<close>

fun DecreaseCallCount_step ::
  "int \<Rightarrow> bool \<Rightarrow> dec_pc \<Rightarrow> ChannelData \<Rightarrow> dec_pc option \<times> ChannelData \<times> action list" where
  "DecreaseCallCount_step now spurious Dec_fetch_sub s =
     (let previous_value = call_count s
      in (if previous_value = 1 then Some Dec_last_idle_time else None,
          s\<lparr>call_count := previous_value - 1\<rparr>,
          [Fetch_Sub previous_value memory_order_relaxed]))"
| "DecreaseCallCount_step now spurious Dec_last_idle_time s =
     (Some Dec_load, s\<lparr>last_idle_time := now\<rparr>, [Write_Last_Idle_Time now])"
| "DecreaseCallCount_step now spurious Dec_load s =
     (Some (Dec_switch (state s)), s, [Load (state s) memory_order_relaxed])"
| "DecreaseCallCount_step now spurious (Dec_switch st) s =
     (case st of
        CALLS_ACTIVE \<Rightarrow>
          (case StartIdleTimer s of (s', as) \<Rightarrow> (Some Dec_store_TIMER_PENDING, s', as))
      | TIMER_PENDING_CALLS_ACTIVE \<Rightarrow>
          (case compare_exchange_weak spurious st TIMER_PENDING_CALLS_SEEN_SINCE_TIMER_START
                  memory_order_release memory_order_relaxed s of
             (ok, st', s', a) \<Rightarrow> (if ok then None else Some (Dec_switch st'), s', [a]))
      | _ \<Rightarrow> (Some (Dec_switch (state s)), s, [Load (state s) memory_order_relaxed]))"
| "DecreaseCallCount_step now spurious Dec_store_TIMER_PENDING s =
     (None, s\<lparr>state := TIMER_PENDING\<rparr>, [Store TIMER_PENDING memory_order_release])"

subsection \<open>IdleTimerCallback\<close>

datatype tim_pc =
    Tim_entry
  | Tim_switch ChannelState
  | Tim_EnterIdle
  | Tim_store_IDLE
  | Tim_StartIdleTimer
  | Tim_store_TIMER_PENDING

text \<open>
  \<open>error\<close> is \<open>error \<noteq> GRPC_ERROR_NONE\<close>. The loop ends when \<open>finished\<close> is set,
  after which the reference held for the callback is dropped; that last unref is
  recorded with the step that ends the loop.
\<close>

fun IdleTimerCallback_step ::
  "bool \<Rightarrow> bool \<Rightarrow> tim_pc \<Rightarrow> ChannelData \<Rightarrow> tim_pc option \<times> ChannelData \<times> action list" where
  "IdleTimerCallback_step error spurious Tim_entry s =
     (if error then (None, s, [Stack_Unref Max_idle_timer_callback])
      else (Some (Tim_switch (state s)), s, [Load (state s) memory_order_relaxed]))"
| "IdleTimerCallback_step error spurious (Tim_switch st) s =
     (case st of
        TIMER_PENDING \<Rightarrow>
          (case compare_exchange_weak spurious st PROCESSING
                  memory_order_acquire memory_order_relaxed s of
             (finished, st', s', a) \<Rightarrow>
               (if finished then Some Tim_EnterIdle else Some (Tim_switch st'), s', [a]))
      | TIMER_PENDING_CALLS_ACTIVE \<Rightarrow>
          (case compare_exchange_weak spurious st CALLS_ACTIVE
                  memory_order_relaxed memory_order_relaxed s of
             (finished, st', s', a) \<Rightarrow>
               (if finished then (None, s', [a, Stack_Unref Max_idle_timer_callback])
                else (Some (Tim_switch st'), s', [a])))
      | TIMER_PENDING_CALLS_SEEN_SINCE_TIMER_START \<Rightarrow>
          (case compare_exchange_weak spurious st PROCESSING
                  memory_order_acquire memory_order_relaxed s of
             (finished, st', s', a) \<Rightarrow>
               (if finished then Some Tim_StartIdleTimer else Some (Tim_switch st'), s', [a]))
      | _ \<Rightarrow> (Some (Tim_switch (state s)), s, [Load (state s) memory_order_relaxed]))"
| "IdleTimerCallback_step error spurious Tim_EnterIdle s =
     (case EnterIdle s of (s', as) \<Rightarrow> (Some Tim_store_IDLE, s', as))"
| "IdleTimerCallback_step error spurious Tim_store_IDLE s =
     (None, s\<lparr>state := IDLE\<rparr>,
      [Store IDLE memory_order_relaxed, Stack_Unref Max_idle_timer_callback])"
| "IdleTimerCallback_step error spurious Tim_StartIdleTimer s =
     (case StartIdleTimer s of (s', as) \<Rightarrow> (Some Tim_store_TIMER_PENDING, s', as))"
| "IdleTimerCallback_step error spurious Tim_store_TIMER_PENDING s =
     (None, s\<lparr>state := TIMER_PENDING\<rparr>,
      [Store TIMER_PENDING memory_order_relaxed, Stack_Unref Max_idle_timer_callback])"

subsection \<open>StartTransportOp\<close>

datatype top_pc =
    Top_entry
  | Top_IncreaseCallCount inc_pc
  | Top_grpc_timer_cancel
  | Top_next_op

text \<open>\<open>disconnect\<close> is \<open>op->disconnect_with_error \<noteq> GRPC_ERROR_NONE\<close>.\<close>

fun StartTransportOp_step ::
  "bool \<Rightarrow> bool \<Rightarrow> top_pc \<Rightarrow> ChannelData \<Rightarrow> top_pc option \<times> ChannelData \<times> action list" where
  "StartTransportOp_step disconnect spurious Top_entry s =
     (if disconnect then (Some (Top_IncreaseCallCount Inc_fetch_add), s, [])
      else (Some Top_next_op, s, []))"
| "StartTransportOp_step disconnect spurious (Top_IncreaseCallCount p) s =
     (case IncreaseCallCount_step spurious p s of
        (None, s', as) \<Rightarrow> (Some Top_grpc_timer_cancel, s', as)
      | (Some p', s', as) \<Rightarrow> (Some (Top_IncreaseCallCount p'), s', as))"
| "StartTransportOp_step disconnect spurious Top_grpc_timer_cancel s =
     (Some Top_next_op, s\<lparr>idle_timer := grpc_timer_cancel (idle_timer s)\<rparr>, [Timer_Cancel])"
| "StartTransportOp_step disconnect spurious Top_next_op s = (None, s, [Next_Op])"

subsection \<open>Threads\<close>

text \<open>
  A thread is one invocation of an entry point of the filter together with its
  program counter; \<open>None\<close> is an invocation that has returned. \<open>CallData::Init\<close>
  calls \<open>IncreaseCallCount\<close> and \<open>CallData::Destroy\<close> calls \<open>DecreaseCallCount\<close>.
\<close>

datatype thread =
    CallData_Init "inc_pc option"
  | CallData_Destroy int "dec_pc option"
  | IdleTimerCallback bool "tim_pc option"
  | StartTransportOp bool "top_pc option"

fun returned :: "thread \<Rightarrow> bool" where
  "returned (CallData_Init p) = (p = None)"
| "returned (CallData_Destroy now p) = (p = None)"
| "returned (IdleTimerCallback error p) = (p = None)"
| "returned (StartTransportOp disconnect p) = (p = None)"

fun thread_step :: "bool \<Rightarrow> thread \<Rightarrow> ChannelData \<Rightarrow> thread \<times> ChannelData \<times> action list" where
  "thread_step spurious (CallData_Init (Some p)) s =
     (case IncreaseCallCount_step spurious p s of (p', s', as) \<Rightarrow> (CallData_Init p', s', as))"
| "thread_step spurious (CallData_Destroy now (Some p)) s =
     (case DecreaseCallCount_step now spurious p s of
        (p', s', as) \<Rightarrow> (CallData_Destroy now p', s', as))"
| "thread_step spurious (IdleTimerCallback error (Some p)) s =
     (case IdleTimerCallback_step error spurious p s of
        (p', s', as) \<Rightarrow> (IdleTimerCallback error p', s', as))"
| "thread_step spurious (StartTransportOp disconnect (Some p)) s =
     (case StartTransportOp_step disconnect spurious p s of
        (p', s', as) \<Rightarrow> (StartTransportOp disconnect p', s', as))"
| "thread_step spurious t s = (t, s, [])"

text \<open>
  One thread running undisturbed. Every step consumes one element of \<open>flags\<close>, which
  says whether a \<open>compare_exchange_weak\<close> attempted in that step fails spuriously; the
  run stops when the procedure returns or the flags are used up. The result is the
  thread reached, the shared state and the actions in program order.
\<close>

fun run_thread :: "bool list \<Rightarrow> thread \<Rightarrow> ChannelData \<Rightarrow> thread \<times> ChannelData \<times> action list" where
  "run_thread [] t s = (t, s, [])"
| "run_thread (f # flags) t s =
     (if returned t then (t, s, [])
      else (case thread_step f t s of
              (t', s', as) \<Rightarrow>
                (case run_thread flags t' s' of (t'', s'', bs) \<Rightarrow> (t'', s'', as @ bs))))"

definition IncreaseCallCount :: "bool list \<Rightarrow> ChannelData \<Rightarrow> thread \<times> ChannelData \<times> action list" where
  "IncreaseCallCount flags s = run_thread flags (CallData_Init (Some Inc_fetch_add)) s"

definition DecreaseCallCount ::
  "int \<Rightarrow> bool list \<Rightarrow> ChannelData \<Rightarrow> thread \<times> ChannelData \<times> action list" where
  "DecreaseCallCount now flags s = run_thread flags (CallData_Destroy now (Some Dec_fetch_sub)) s"


section \<open>The filter among its callers\<close>

text \<open>
  The filter is driven from outside: the channel stack creates and destroys call
  elements (\<open>CallData::Init\<close>, \<open>CallData::Destroy\<close>), it passes transport ops
  (\<open>StartTransportOp\<close>), and the timer subsystem runs \<open>IdleTimerCallback\<close>. A
  \<open>system\<close> is the shared \<open>ChannelData\<close> together with every invocation made so far.
  \<open>live_calls\<close> is the number of call elements whose \<open>Init\<close> has returned and whose
  \<open>Destroy\<close> has not been invoked. \<open>log\<close> holds every action performed, in the order
  of execution, each with the value of \<open>call_count_\<close> right after the step that
  performed it.
\<close>

record system =
  chand :: ChannelData
  threads :: "thread list"
  live_calls :: int
  log :: "(int \<times> action) list"

definition initial_system :: "int \<Rightarrow> int \<Rightarrow> system" where
  "initial_system timeout uninitialised =
     \<lparr>chand = ChannelData_new timeout uninitialised, threads = [], live_calls = 0, log = []\<rparr>"

text \<open>
  An event either starts an invocation on a new thread or lets thread \<open>i\<close> take its
  next step (the flag: a \<open>compare_exchange_weak\<close> of that step fails spuriously).
\<close>

datatype event =
    Call_Init
  | Call_Destroy int
  | Transport_Op bool
  | Timer_Fire
  | Step nat bool

text \<open>
  How the callers behave. \<open>Any_Order\<close>: no constraint. \<open>Matched\<close>: a call element is
  destroyed only after its \<open>Init\<close> has returned, once. \<open>One_At_A_Time\<close>: as
  \<open>Matched\<close>, and an invocation starts only when all earlier ones have returned.
\<close>

datatype discipline = Any_Order | Matched | One_At_A_Time

definition all_returned :: "system \<Rightarrow> bool" where
  "all_returned c = list_all returned (threads c)"

fun starts :: "event \<Rightarrow> bool" where
  "starts (Step i spurious) = False"
| "starts ev = True"

fun admitted :: "discipline \<Rightarrow> event \<Rightarrow> system \<Rightarrow> bool" where
  "admitted Any_Order ev c = True"
| "admitted Matched (Call_Destroy now) c = (0 < live_calls c)"
| "admitted Matched ev c = True"
| "admitted One_At_A_Time (Call_Destroy now) c = (0 < live_calls c \<and> all_returned c)"
| "admitted One_At_A_Time ev c = (if starts ev then all_returned c else True)"

definition spawn :: "thread \<Rightarrow> system \<Rightarrow> system" where
  "spawn t c = c\<lparr>threads := threads c @ [t]\<rparr>"

fun is_CallData_Init :: "thread \<Rightarrow> bool" where
  "is_CallData_Init (CallData_Init p) = True"
| "is_CallData_Init t = False"

fun perform :: "event \<Rightarrow> system \<Rightarrow> system option" where
  "perform Call_Init c = Some (spawn (CallData_Init (Some Inc_fetch_add)) c)"
| "perform (Call_Destroy now) c =
     Some (spawn (CallData_Destroy now (Some Dec_fetch_sub)) (c\<lparr>live_calls := live_calls c - 1\<rparr>))"
| "perform (Transport_Op disconnect) c =
     Some (spawn (StartTransportOp disconnect (Some Top_entry)) c)"
| "perform Timer_Fire c =
     (case grpc_timer_fire (idle_timer (chand c)) of
        None \<Rightarrow> None
      | Some error \<Rightarrow>
          Some (spawn (IdleTimerCallback error (Some Tim_entry))
                  (c\<lparr>chand := (chand c)\<lparr>idle_timer := Timer_Unset\<rparr>\<rparr>)))"
| "perform (Step i spurious) c =
     (if i < length (threads c) \<and> \<not> returned (threads c ! i)
      then (case thread_step spurious (threads c ! i) (chand c) of
              (t', s', as) \<Rightarrow>
                Some (c\<lparr>chand := s',
                        threads := (threads c)[i := t'],
                        live_calls :=
                          live_calls c + (if is_CallData_Init t' \<and> returned t' then 1 else 0),
                        log := log c @ map (Pair (call_count s')) as\<rparr>))
      else None)"

definition sys_step :: "discipline \<Rightarrow> event \<Rightarrow> system \<Rightarrow> system option" where
  "sys_step d ev c = (if admitted d ev c then perform ev c else None)"

fun run :: "discipline \<Rightarrow> event list \<Rightarrow> system \<Rightarrow> system option" where
  "run d [] c = Some c"
| "run d (ev # evs) c = (case sys_step d ev c of None \<Rightarrow> None | Some c' \<Rightarrow> run d evs c')"

text \<open>
  The calls of \<open>IncreaseCallCount\<close> and \<open>DecreaseCallCount\<close> an event makes:
  \<open>CallData::Init\<close> and a transport op that carries \<open>disconnect_with_error\<close> call
  the first, \<open>CallData::Destroy\<close> the second.
\<close>

fun calls_IncreaseCallCount :: "event \<Rightarrow> bool" where
  "calls_IncreaseCallCount Call_Init = True"
| "calls_IncreaseCallCount (Transport_Op disconnect) = disconnect"
| "calls_IncreaseCallCount ev = False"

fun calls_DecreaseCallCount :: "event \<Rightarrow> bool" where
  "calls_DecreaseCallCount (Call_Destroy now) = True"
| "calls_DecreaseCallCount ev = False"

text \<open>
  No call of \<open>IncreaseCallCount\<close> or \<open>DecreaseCallCount\<close> is in flight: every
  invocation of \<open>CallData::Init\<close>, \<open>CallData::Destroy\<close> and \<open>StartTransportOp\<close> has
  returned. Timer callbacks may still be running.
\<close>

fun is_IdleTimerCallback :: "thread \<Rightarrow> bool" where
  "is_IdleTimerCallback (IdleTimerCallback error p) = True"
| "is_IdleTimerCallback t = False"

definition no_call_in_flight :: "system \<Rightarrow> bool" where
  "no_call_in_flight c = list_all (\<lambda>t. returned t \<or> is_IdleTimerCallback t) (threads c)"

text \<open>
  A disconnect has been performed once some \<open>StartTransportOp\<close> that carried
  \<open>disconnect_with_error\<close> is past its \<open>IncreaseCallCount\<close> and its
  \<open>grpc_timer_cancel\<close>.
\<close>

fun past_disconnect :: "thread \<Rightarrow> bool" where
  "past_disconnect (StartTransportOp disconnect p) =
     (disconnect \<and> (p = Some Top_next_op \<or> p = None))"
| "past_disconnect t = False"

definition disconnected :: "system \<Rightarrow> bool" where
  "disconnected c = list_ex past_disconnect (threads c)"

definition enter_idles :: "system \<Rightarrow> nat" where
  "enter_idles c = length (filter (\<lambda>e. snd e = Enter_Idle) (log c))"

section \<open>The idle timeout in the channel arguments\<close>

text \<open>
  \<open>GetClientIdleTimeout\<close> and \<open>MaybeAddClientIdleFilter\<close> of client_idle_filter.cc.
  The functions they call on channel arguments and on the stack builder
  (channel_args.h, channel_stack_builder.h) are not among the sources; they are
  parameters, gathered in one record. \<open>grpc_channel_arg_get_integer\<close> receives the
  argument found (or none) and the options \<open>{DEFAULT_IDLE_TIMEOUT_MS, 0, INT_MAX}\<close> as
  the source passes them.
\<close>

definition INT_MAX :: int where
  "INT_MAX = 2147483647"

definition DEFAULT_IDLE_TIMEOUT_MS :: int where
  "DEFAULT_IDLE_TIMEOUT_MS = INT_MAX"

definition MIN_IDLE_TIMEOUT_MS :: int where
  "MIN_IDLE_TIMEOUT_MS = 1 * 1000"

text \<open>
  Modelled from the spec: the macro \<open>GRPC_ARG_CLIENT_IDLE_TIMEOUT_MS\<close> (its header is
  not among the sources); the spec names the key \<open>client_idle_timeout_ms\<close>.
\<close>

definition GRPC_ARG_CLIENT_IDLE_TIMEOUT_MS :: string where
  "GRPC_ARG_CLIENT_IDLE_TIMEOUT_MS = ''client_idle_timeout_ms''"

record ('args, 'arg, 'builder) channel_api =
  grpc_channel_args_find :: "'args \<Rightarrow> string \<Rightarrow> 'arg option"
  grpc_channel_arg_get_integer :: "'arg option \<Rightarrow> int \<times> int \<times> int \<Rightarrow> int"
  grpc_channel_args_want_minimal_stack :: "'args \<Rightarrow> bool"
  grpc_channel_stack_builder_get_channel_arguments :: "'builder \<Rightarrow> 'args"
  grpc_channel_stack_builder_prepend_filter :: "'builder \<Rightarrow> string \<Rightarrow> bool \<times> 'builder"

definition GetClientIdleTimeout :: "('args, 'arg, 'builder) channel_api \<Rightarrow> 'args \<Rightarrow> int" where
  "GetClientIdleTimeout api args =
     max (grpc_channel_arg_get_integer api
            (grpc_channel_args_find api args GRPC_ARG_CLIENT_IDLE_TIMEOUT_MS)
            (DEFAULT_IDLE_TIMEOUT_MS, 0, INT_MAX))
         MIN_IDLE_TIMEOUT_MS"

text \<open>
  The result is the returned flag and the builder; \<open>''client_idle''\<close> stands for
  \<open>&grpc_client_idle_filter\<close>.
\<close>

definition MaybeAddClientIdleFilter ::
  "('args, 'arg, 'builder) channel_api \<Rightarrow> 'builder \<Rightarrow> bool \<times> 'builder" where
  "MaybeAddClientIdleFilter api builder =
     (let channel_args = grpc_channel_stack_builder_get_channel_arguments api builder
      in if \<not> grpc_channel_args_want_minimal_stack api channel_args \<and>
            GetClientIdleTimeout api channel_args \<noteq> INT_MAX
         then grpc_channel_stack_builder_prepend_filter api builder ''client_idle''
         else (True, builder))"

text \<open>
  Modelled from the spec: \<open>grpc_channel_arg_get_integer\<close> of channel_args.cc, which is
  not among the sources, with the value of a \<open>grpc_arg\<close> it reads. The spec's
  configuration table gives a key that is not configured its default. The source
  passes the helper the options \<open>{default_value, min_value, max_value}\<close>; the helper
  answers with the integer of the argument when there is one and it lies within
  \<open>[min_value, max_value]\<close>, and with \<open>default_value\<close> in every other case: no
  argument, an argument that is not an integer, an integer outside the range.
\<close>

datatype grpc_arg_value = GRPC_ARG_INTEGER int | GRPC_ARG_STRING string | GRPC_ARG_POINTER

definition channel_arg_get_integer :: "grpc_arg_value option \<Rightarrow> int \<times> int \<times> int \<Rightarrow> int" where
  "channel_arg_get_integer arg options =
     (case options of
        (default_value, min_value, max_value) \<Rightarrow>
          (case arg of
             Some (GRPC_ARG_INTEGER v) \<Rightarrow>
               if v < min_value \<or> max_value < v then default_value else v
           | _ \<Rightarrow> default_value))"

section \<open>The default wakeup-fd factory\<close>

text \<open>
  \<open>SetDefaultWakeupFdFactoryIfUnset\<close>, \<open>SupportsWakeupFd\<close> and \<open>CreateWakeupFd\<close>
  (wakeup_fd_posix.cc, built with \<open>GRPC_POSIX_WAKEUP_FD\<close>), the pipe factory
  (wakeup_fd_pipe.cc) and \<open>ConfigureDefaultWakeupFdFactories\<close>
  (wakeup_fd_posix_default.cc). The global \<open>g_wakeup_fd_fn\<close> is passed and returned;
  a \<open>std::function\<close> that holds nothing (\<open>nullptr\<close>) is \<open>None\<close>. A factory reads the
  operating system, so it is a function of it; \<open>absl::StatusOr\<close> is a sum with the
  error status on the left. Every function runs under \<open>g_mu\<close>, so calls do not
  interleave.
\<close>

datatype StatusCode = kOk | kNotFound | kInternal

datatype Status = Status StatusCode string

definition ok :: "Status \<Rightarrow> bool" where
  "ok st = (case st of Status code message \<Rightarrow> code = kOk)"

definition SetDefaultWakeupFdFactoryIfUnset ::
  "('os \<Rightarrow> Status + 'w) option \<Rightarrow> ('os \<Rightarrow> Status + 'w) option \<Rightarrow> ('os \<Rightarrow> Status + 'w) option" where
  "SetDefaultWakeupFdFactoryIfUnset factory g_wakeup_fd_fn =
     (if g_wakeup_fd_fn = None then factory else g_wakeup_fd_fn)"

definition SupportsWakeupFd :: "('os \<Rightarrow> Status + 'w) option \<Rightarrow> bool" where
  "SupportsWakeupFd g_wakeup_fd_fn = (g_wakeup_fd_fn \<noteq> None)"

definition CreateWakeupFd :: "('os \<Rightarrow> Status + 'w) option \<Rightarrow> 'os \<Rightarrow> Status + 'w" where
  "CreateWakeupFd g_wakeup_fd_fn os =
     (if SupportsWakeupFd g_wakeup_fd_fn
      then (case g_wakeup_fd_fn of
              Some factory \<Rightarrow> factory os
            | None \<Rightarrow> Inl (Status kNotFound ''Wakeup-fd is not supported on this system''))
      else Inl (Status kNotFound ''Wakeup-fd is not supported on this system''))"

text \<open>
  What the system calls of wakeup_fd_pipe.cc return: \<open>pipe_result\<close> is \<open>None\<close> when
  \<open>pipe()\<close> fails, \<open>fcntl_F_GETFL fd\<close> and \<open>fcntl_F_SETFL fd flags\<close> are the results of
  the two \<open>fcntl\<close> calls, \<open>strerror_errno\<close> is \<open>strerror(errno)\<close>.
\<close>

record posix =
  pipe_result :: "(int \<times> int) option"
  fcntl_F_GETFL :: "int \<Rightarrow> int"
  fcntl_F_SETFL :: "int \<Rightarrow> int \<Rightarrow> int"
  O_NONBLOCK :: int
  strerror_errno :: string

definition SetSocketNonBlocking :: "posix \<Rightarrow> int \<Rightarrow> Status" where
  "SetSocketNonBlocking os fd =
     (let oldflags = fcntl_F_GETFL os fd
      in if oldflags < 0 then Status kInternal (''fcntl: '' @ strerror_errno os)
         else if fcntl_F_SETFL os fd (or oldflags (O_NONBLOCK os)) \<noteq> 0
         then Status kInternal (''fcntl: '' @ strerror_errno os)
         else Status kOk [])"

record WakeupFd =
  read_fd :: int
  write_fd :: int

definition PipeWakeupFd_Init :: "posix \<Rightarrow> Status + WakeupFd" where
  "PipeWakeupFd_Init os =
     (case pipe_result os of
        None \<Rightarrow> Inl (Status kInternal (''pipe: '' @ strerror_errno os))
      | Some (fd0, fd1) \<Rightarrow>
          (let status = SetSocketNonBlocking os fd0
           in if \<not> ok status then Inl status
              else (let status = SetSocketNonBlocking os fd1
                    in if \<not> ok status then Inl status
                       else Inr \<lparr>read_fd = fd0, write_fd = fd1\<rparr>)))"

definition PipeWakeupFd_IsSupported :: "posix \<Rightarrow> bool" where
  "PipeWakeupFd_IsSupported os = (case PipeWakeupFd_Init os of Inr w \<Rightarrow> True | Inl st \<Rightarrow> False)"

text \<open>
  \<open>kIsPipeWakeupFdSupported\<close> is a function-local static, computed by the first call;
  the model is that first call.
\<close>

definition CreatePipeWakeupFd :: "posix \<Rightarrow> Status + WakeupFd" where
  "CreatePipeWakeupFd os =
     (let kIsPipeWakeupFdSupported = PipeWakeupFd_IsSupported os
      in if kIsPipeWakeupFdSupported then PipeWakeupFd_Init os
         else Inl (Status kNotFound ''Pipe wakeup fd is not supported''))"

text \<open>
  wakeup_fd_eventfd.cc is not among the sources: whether eventfd is supported, and
  its factory, are parameters, as is the macro \<open>GRPC_POSIX_NO_SPECIAL_WAKEUP_FD\<close>.
\<close>

definition ConfigureDefaultWakeupFdFactories ::
  "bool \<Rightarrow> bool \<Rightarrow> (posix \<Rightarrow> Status + WakeupFd) \<Rightarrow> posix \<Rightarrow>
   (posix \<Rightarrow> Status + WakeupFd) option \<Rightarrow> (posix \<Rightarrow> Status + WakeupFd) option" where
  "ConfigureDefaultWakeupFdFactories GRPC_POSIX_NO_SPECIAL_WAKEUP_FD
       EventFdWakeupFd_IsSupported CreateEventFdWakeupFd os g_wakeup_fd_fn =
     (if \<not> GRPC_POSIX_NO_SPECIAL_WAKEUP_FD \<and> EventFdWakeupFd_IsSupported
      then SetDefaultWakeupFdFactoryIfUnset (Some CreateEventFdWakeupFd) g_wakeup_fd_fn
      else if PipeWakeupFd_IsSupported os
      then SetDefaultWakeupFdFactoryIfUnset (Some CreatePipeWakeupFd) g_wakeup_fd_fn
      else g_wakeup_fd_fn)"

text \<open>Two operating systems: one where \<open>pipe()\<close> works and one where it fails.\<close>

definition with_pipes :: posix where
  "with_pipes =
     \<lparr>pipe_result = Some (3, 4), fcntl_F_GETFL = (\<lambda>fd. 0), fcntl_F_SETFL = (\<lambda>fd flags. 0),
      O_NONBLOCK = 2048, strerror_errno = []\<rparr>"

definition without_pipes :: posix where
  "without_pipes =
     \<lparr>pipe_result = None, fcntl_F_GETFL = (\<lambda>fd. 0), fcntl_F_SETFL = (\<lambda>fd flags. 0),
      O_NONBLOCK = 2048, strerror_errno = ''Too many open files''\<rparr>"

section \<open>Deadline tasks of the event engine\<close>

text \<open>
  Modelled from the spec: the task and timer service behind \<open>EventEngine::RunAt\<close> and
  \<open>EventEngine::Cancel\<close>. event_engine.h declares both as pure virtual functions and no
  implementation is among the sources. The spec gives a task handle as a slot index
  combined with a generation counter, so that a stale handle never matches the new
  occupant of its slot; \<open>cancel\<close> returns true if the closure had not yet been
  dispatched (the closure will then not run) and false if it has been dispatched; a
  dispatched closure goes through the ready queue and is run from there. The
  bookkeeping is under one mutex, so the operations are atomic.

  \<open>scheduled slot\<close>: the slot holds a task that is neither dispatched nor cancelled.
  \<open>ready\<close>: the dispatched tasks whose closure has still to run. \<open>invoked\<close>,
  \<open>cancelled\<close> and \<open>issued\<close> record, by handle, the closures run, the cancellations
  that returned true and the handles given out. When a deadline passes is decided
  outside (\<open>dispatch\<close>); the deadline and the closure themselves play no part in the
  bookkeeping.
\<close>

type_synonym TaskHandle = "nat \<times> nat"

record engine =
  generation :: "nat \<Rightarrow> nat"
  scheduled :: "nat \<Rightarrow> bool"
  ready :: "TaskHandle list"
  invoked :: "TaskHandle list"
  cancelled :: "TaskHandle list"
  issued :: "TaskHandle list"

definition new_engine :: engine where
  "new_engine = \<lparr>generation = (\<lambda>slot. 0), scheduled = (\<lambda>slot. False), ready = [],
                 invoked = [], cancelled = [], issued = []\<rparr>"

definition pending :: "engine \<Rightarrow> TaskHandle \<Rightarrow> bool" where
  "pending e h = (scheduled e (fst h) \<and> generation e (fst h) = snd h)"

text \<open>\<open>run_at\<close> in a free slot chosen by the engine; \<open>None\<close> if the slot is in use.\<close>

definition run_at :: "nat \<Rightarrow> engine \<Rightarrow> (TaskHandle \<times> engine) option" where
  "run_at slot e =
     (if scheduled e slot then None
      else (let h = (slot, generation e slot + 1)
            in Some (h, e\<lparr>generation := (generation e)(slot := generation e slot + 1),
                          scheduled := (scheduled e)(slot := True),
                          issued := h # issued e\<rparr>)))"

definition cancel :: "TaskHandle \<Rightarrow> engine \<Rightarrow> bool \<times> engine" where
  "cancel h e =
     (if pending e h
      then (True, e\<lparr>scheduled := (scheduled e)(fst h := False), cancelled := h # cancelled e\<rparr>)
      else (False, e))"

definition dispatch :: "nat \<Rightarrow> engine \<Rightarrow> engine" where
  "dispatch slot e =
     (if scheduled e slot
      then e\<lparr>scheduled := (scheduled e)(slot := False),
             ready := ready e @ [(slot, generation e slot)]\<rparr>
      else e)"

definition execute :: "engine \<Rightarrow> engine" where
  "execute e = (case ready e of [] \<Rightarrow> e | h # hs \<Rightarrow> e\<lparr>ready := hs, invoked := h # invoked e\<rparr>)"

datatype engine_op = RunAt nat | Cancel TaskHandle | Dispatch nat | Execute

fun apply_op :: "engine_op \<Rightarrow> engine \<Rightarrow> engine option" where
  "apply_op (RunAt slot) e = map_option snd (run_at slot e)"
| "apply_op (Cancel h) e = Some (snd (cancel h e))"
| "apply_op (Dispatch slot) e = Some (dispatch slot e)"
| "apply_op Execute e = Some (execute e)"

fun apply_ops :: "engine_op list \<Rightarrow> engine \<Rightarrow> engine option" where
  "apply_ops [] e = Some e"
| "apply_ops (x # xs) e = (case apply_op x e of None \<Rightarrow> None | Some e' \<Rightarrow> apply_ops xs e')"

text \<open>
  Modelled from the spec: the worker pool, which drains the ready queue. \<open>drain\<close> runs
  the closures that stand in the ready queue, one \<open>execute\<close> for each.
\<close>

definition drain :: "engine \<Rightarrow> engine" where
  "drain e = (execute ^^ length (ready e)) e"

text \<open>
  For a handle: how often its closure has run, how often a cancellation of it returned
  true, how often it stands in the ready queue, and whether it is still scheduled.
\<close>

definition outcomes :: "engine \<Rightarrow> TaskHandle \<Rightarrow> nat" where
  "outcomes e h =
     count_list (invoked e) h + count_list (cancelled e) h + count_list (ready e) h +
     (if pending e h then 1 else 0)"

definition engine_inv :: "engine \<Rightarrow> bool" where
  "engine_inv e =
     ((\<forall>h \<in> set (issued e). 1 \<le> snd h \<and> snd h \<le> generation e (fst h)) \<and>
      (\<forall>slot. scheduled e slot \<longrightarrow> (slot, generation e slot) \<in> set (issued e)) \<and>
      (\<forall>h. outcomes e h = (if h \<in> set (issued e) then 1 else 0)))"

section \<open>Invariants\<close>

subsection \<open>The counter and the invocations\<close>

text \<open>
  What an invocation has added to \<open>call_count_\<close> so far: \<open>IncreaseCallCount\<close> adds 1
  with its first step, \<open>DecreaseCallCount\<close> subtracts 1 with its first step, and
  \<open>StartTransportOp\<close> calls \<open>IncreaseCallCount\<close> only for a disconnect.
\<close>

fun counted :: "thread \<Rightarrow> int" where
  "counted (CallData_Init p) = (if p = Some Inc_fetch_add then 0 else 1)"
| "counted (CallData_Destroy now p) = (if p = Some Dec_fetch_sub then 0 else - 1)"
| "counted (IdleTimerCallback error p) = 0"
| "counted (StartTransportOp disconnect p) =
     (if disconnect \<and> p \<noteq> Some Top_entry \<and> p \<noteq> Some (Top_IncreaseCallCount Inc_fetch_add)
      then 1 else 0)"

text \<open>A transport op without \<open>disconnect_with_error\<close> never enters the \<open>if\<close>.\<close>

fun well_formed :: "thread \<Rightarrow> bool" where
  "well_formed (StartTransportOp disconnect p) =
     (disconnect \<or> p = Some Top_entry \<or> p = Some Top_next_op \<or> p = None)"
| "well_formed t = True"

fun invokes_IncreaseCallCount :: "thread \<Rightarrow> bool" where
  "invokes_IncreaseCallCount (CallData_Init p) = True"
| "invokes_IncreaseCallCount (StartTransportOp disconnect p) = disconnect"
| "invokes_IncreaseCallCount t = False"

fun invokes_DecreaseCallCount :: "thread \<Rightarrow> bool" where
  "invokes_DecreaseCallCount (CallData_Destroy now p) = True"
| "invokes_DecreaseCallCount t = False"

definition balanced :: "system \<Rightarrow> bool" where
  "balanced c =
     (list_all well_formed (threads c) \<and>
      call_count (chand c) = sum_list (map counted (threads c)))"

subsection \<open>Invocations that overlap\<close>

text \<open>
  The invocations that are in the middle of a change of \<open>state_\<close>.
  \<open>makes_busy\<close>: a call of \<open>IncreaseCallCount\<close> whose \<open>fetch_add\<close> returned 0 and
  that has not returned (the source: "this call is the one that makes the channel
  busy"); it loops until it has moved the state. \<open>makes_idle\<close>: a call of
  \<open>DecreaseCallCount\<close> whose \<open>fetch_sub\<close> returned 1 and that has not returned.
  \<open>holds_PROCESSING\<close>: a timer callback between its exchange of the state for
  \<open>PROCESSING\<close> and the store that ends it. \<open>saw_IDLE\<close> and \<open>saw_CALLS_ACTIVE\<close>: the
  invocations that are about to act on a local copy of the state without a
  compare-exchange (the plain store of \<open>CALLS_ACTIVE\<close>; \<open>StartIdleTimer()\<close> and the
  store of \<open>TIMER_PENDING\<close>).
\<close>

fun makes_busy :: "thread \<Rightarrow> bool" where
  "makes_busy (CallData_Init (Some p)) = (p \<noteq> Inc_fetch_add)"
| "makes_busy (StartTransportOp disconnect (Some (Top_IncreaseCallCount p))) =
     (disconnect \<and> p \<noteq> Inc_fetch_add)"
| "makes_busy t = False"

fun makes_idle :: "thread \<Rightarrow> bool" where
  "makes_idle (CallData_Destroy now (Some p)) = (p \<noteq> Dec_fetch_sub)"
| "makes_idle t = False"

fun holds_PROCESSING :: "thread \<Rightarrow> bool" where
  "holds_PROCESSING (IdleTimerCallback error (Some p)) =
     (p = Tim_EnterIdle \<or> p = Tim_store_IDLE \<or> p = Tim_StartIdleTimer \<or>
      p = Tim_store_TIMER_PENDING)"
| "holds_PROCESSING t = False"

fun saw_IDLE :: "thread \<Rightarrow> bool" where
  "saw_IDLE (CallData_Init (Some p)) = (p = Inc_switch IDLE)"
| "saw_IDLE (StartTransportOp disconnect (Some (Top_IncreaseCallCount p))) =
     (disconnect \<and> p = Inc_switch IDLE)"
| "saw_IDLE t = False"

fun saw_CALLS_ACTIVE :: "thread \<Rightarrow> bool" where
  "saw_CALLS_ACTIVE (CallData_Destroy now (Some p)) =
     (p = Dec_switch CALLS_ACTIVE \<or> p = Dec_store_TIMER_PENDING)"
| "saw_CALLS_ACTIVE t = False"

text \<open>
  The part of the counter that is not accounted for by \<open>live_calls\<close>: a call element
  whose \<open>Init\<close> has incremented but not returned, a call element whose \<open>Destroy\<close> has
  been invoked but has not decremented yet, and the phony call of a disconnect.
\<close>

fun weight :: "thread \<Rightarrow> int" where
  "weight (CallData_Init p) = (if p = None \<or> p = Some Inc_fetch_add then 0 else 1)"
| "weight (CallData_Destroy now p) = (if p = Some Dec_fetch_sub then 1 else 0)"
| "weight (IdleTimerCallback error p) = 0"
| "weight (StartTransportOp disconnect p) =
     (if disconnect \<and> p \<noteq> Some Top_entry \<and> p \<noteq> Some (Top_IncreaseCallCount Inc_fetch_add)
      then 1 else 0)"

definition number :: "(thread \<Rightarrow> bool) \<Rightarrow> thread list \<Rightarrow> int" where
  "number P ts = sum_list (map (\<lambda>t. if P t then 1 else 0) ts)"

text \<open>
  How the counter, the state and the invocations in flight fit together, for a
  counter \<open>n\<close>, a state \<open>st\<close> and the numbers of invocations that make the channel busy
  (\<open>F\<close>), make it idle (\<open>L\<close>), hold \<open>PROCESSING\<close> (\<open>P\<close>), saw \<open>IDLE\<close> (\<open>FI\<close>) and saw
  \<open>CALLS_ACTIVE\<close> (\<open>LC\<close>). At most one invocation makes the channel busy, and at most
  one makes it idle or holds \<open>PROCESSING\<close>. While one makes the channel idle the state
  is one of the two states of a busy channel; while one holds \<open>PROCESSING\<close> the state
  is \<open>PROCESSING\<close>; in both cases the counter is 0 or the call that makes the channel
  busy is waiting. Otherwise the state is one of the three states of an idle channel
  if the counter is 0 or the call that makes the channel busy is waiting, and one of
  the two states of a busy channel if not. A local copy that is about to be acted on
  without a compare-exchange is the state.
\<close>

definition consistent :: "int \<Rightarrow> int \<Rightarrow> int \<Rightarrow> int \<Rightarrow> int \<Rightarrow> int \<Rightarrow> ChannelState \<Rightarrow> bool" where
  "consistent n F L P FI LC st =
     (F \<le> 1 \<and> L + P \<le> 1 \<and>
      (1 \<le> L \<longrightarrow> st = CALLS_ACTIVE \<or> st = TIMER_PENDING_CALLS_ACTIVE) \<and>
      (1 \<le> P \<longrightarrow> st = PROCESSING) \<and>
      (1 \<le> L + P \<longrightarrow> n = 0 \<or> 1 \<le> F) \<and>
      (L + P \<le> 0 \<longrightarrow>
         (if n = 0 \<or> 1 \<le> F
          then st = IDLE \<or> st = TIMER_PENDING \<or> st = TIMER_PENDING_CALLS_SEEN_SINCE_TIMER_START
          else st = CALLS_ACTIVE \<or> st = TIMER_PENDING_CALLS_ACTIVE)) \<and>
      (1 \<le> FI \<longrightarrow> st = IDLE) \<and>
      (1 \<le> LC \<longrightarrow> st = CALLS_ACTIVE))"

definition overlap_inv :: "system \<Rightarrow> bool" where
  "overlap_inv c =
     (list_all well_formed (threads c) \<and>
      0 \<le> live_calls c \<and>
      live_calls c + sum_list (map weight (threads c)) \<le> call_count (chand c) \<and>
      consistent (call_count (chand c))
        (number makes_busy (threads c)) (number makes_idle (threads c))
        (number holds_PROCESSING (threads c))
        (number saw_IDLE (threads c)) (number saw_CALLS_ACTIVE (threads c))
        (state (chand c)))"

section \<open>Properties of the single procedures\<close>

lemma run_thread_returned: "returned t \<Longrightarrow> run_thread flags t s = (t, s, [])"
  by (cases flags) simp_all


lemma dec_spin:
  "state s \<notin> {CALLS_ACTIVE, TIMER_PENDING_CALLS_ACTIVE} \<Longrightarrow>
   run_thread flags (CallData_Destroy now (Some (Dec_switch (state s)))) s =
     (CallData_Destroy now (Some (Dec_switch (state s))), s,
      replicate (length flags) (Load (state s) memory_order_relaxed))"
  by (induction flags) (auto split: ChannelState.splits)


lemma dec_cas_retry:
  "state s = TIMER_PENDING_CALLS_ACTIVE \<Longrightarrow>
   run_thread (replicate k True @ flags)
      (CallData_Destroy now (Some (Dec_switch TIMER_PENDING_CALLS_ACTIVE))) s =
     (case run_thread flags (CallData_Destroy now (Some (Dec_switch TIMER_PENDING_CALLS_ACTIVE))) s of
        (t, s', tr) \<Rightarrow>
          (t, s', replicate k (CAS_Fail TIMER_PENDING_CALLS_ACTIVE TIMER_PENDING_CALLS_ACTIVE
                                 memory_order_relaxed) @ tr))"
  by (induction k) (auto simp: compare_exchange_weak_def split: prod.splits)



lemma dec_overtaken:
  assumes "state s = CALLS_ACTIVE"
  shows "run_thread (f1 # f2 # f3 # flags)
             (CallData_Destroy now (Some (Dec_switch TIMER_PENDING_CALLS_ACTIVE))) s =
           (CallData_Destroy now None,
            s\<lparr>idle_timer := Timer_Pending (last_idle_time s + client_idle_timeout s),
              state := TIMER_PENDING\<rparr>,
            [CAS_Fail TIMER_PENDING_CALLS_ACTIVE CALLS_ACTIVE memory_order_relaxed,
             Stack_Ref Max_idle_timer_callback,
             Timer_Init (last_idle_time s + client_idle_timeout s),
             Store TIMER_PENDING memory_order_release])"
  using assms
  by (simp add: run_thread_returned compare_exchange_weak_def StartIdleTimer_def
        grpc_timer_init_def Let_def)


text \<open>
  Claim C9. A call of \<open>IncreaseCallCount\<close> whose \<open>fetch_add\<close> returns a value other
  than 0, and a call of \<open>DecreaseCallCount\<close> whose \<open>fetch_sub\<close> returns a value other
  than 1, returns after that one step: the only action is the relaxed update of the
  counter, and the shared data afterwards is the old one with the counter changed, so
  \<open>state_\<close>, \<open>last_idle_time_\<close> and the timer are as before and no timer is armed.
\<close>

theorem calls_off_the_boundary_change_only_the_counter:
  "(call_count s \<noteq> 0 \<longrightarrow>
      IncreaseCallCount (f # flags) s =
        (CallData_Init None, s\<lparr>call_count := call_count s + 1\<rparr>,
         [Fetch_Add (call_count s) memory_order_relaxed])) \<and>
   (call_count s \<noteq> 1 \<longrightarrow>
      DecreaseCallCount now (f # flags) s =
        (CallData_Destroy now None, s\<lparr>call_count := call_count s - 1\<rparr>,
         [Fetch_Sub (call_count s) memory_order_relaxed]))"
  by (simp add: IncreaseCallCount_def DecreaseCallCount_def run_thread_returned Let_def)

theorem calls_off_the_boundary_witness:
  "IncreaseCallCount [False]
      \<lparr>client_idle_timeout = 1000, last_idle_time = 7, call_count = 2,
       state = CALLS_ACTIVE, idle_timer = Timer_Unset\<rparr> =
     (CallData_Init None,
      \<lparr>client_idle_timeout = 1000, last_idle_time = 7, call_count = 3,
       state = CALLS_ACTIVE, idle_timer = Timer_Unset\<rparr>,
      [Fetch_Add 2 memory_order_relaxed]) \<and>
   DecreaseCallCount 9 [False]
      \<lparr>client_idle_timeout = 1000, last_idle_time = 7, call_count = 2,
       state = TIMER_PENDING_CALLS_ACTIVE, idle_timer = Timer_Pending 1007\<rparr> =
     (CallData_Destroy 9 None,
      \<lparr>client_idle_timeout = 1000, last_idle_time = 7, call_count = 1,
       state = TIMER_PENDING_CALLS_ACTIVE, idle_timer = Timer_Pending 1007\<rparr>,
      [Fetch_Sub 2 memory_order_relaxed])"
  using calls_off_the_boundary_change_only_the_counter
          [of "\<lparr>client_idle_timeout = 1000, last_idle_time = 7, call_count = 2,
                state = CALLS_ACTIVE, idle_timer = Timer_Unset\<rparr>" False "[]" 9]
        calls_off_the_boundary_change_only_the_counter
          [of "\<lparr>client_idle_timeout = 1000, last_idle_time = 7, call_count = 2,
                state = TIMER_PENDING_CALLS_ACTIVE, idle_timer = Timer_Pending 1007\<rparr>"
              False "[]" 9]
  by simp



text \<open>
  Claim C3. \<open>DecreaseCallCount\<close> run to its end. When the \<open>fetch_sub\<close> returns 1 it
  first writes \<open>last_idle_time_ = now\<close> and loads the state. From \<open>CALLS_ACTIVE\<close> it
  arms the timer (for \<open>now + client_idle_timeout\<close>) and then stores
  \<open>TIMER_PENDING\<close> with release order. From \<open>TIMER_PENDING_CALLS_ACTIVE\<close> it
  exchanges the state for \<open>TIMER_PENDING_CALLS_SEEN_SINCE_TIMER_START\<close> with release
  order (after \<open>k\<close> spurious failures). In any other state it does not return: it stays
  in its loop and every further step is a relaxed reload of the state. A thread in
  that loop (its copy \<open>st\<close> being such another value) that finds the state changed to
  \<open>CALLS_ACTIVE\<close> or \<open>TIMER_PENDING_CALLS_ACTIVE\<close> reloads it and makes the
  corresponding transition; one whose copy is \<open>TIMER_PENDING_CALLS_ACTIVE\<close> while the
  timer callback has made the state \<open>CALLS_ACTIVE\<close> fails its compare-exchange and
  then arms the timer and stores \<open>TIMER_PENDING\<close>. When the \<open>fetch_sub\<close> returns
  another value than 1 the call returns at once and the state is not changed.
\<close>

theorem DecreaseCallCount_of_the_last_call:
  "(call_count s = 1 \<and> state s = CALLS_ACTIVE \<longrightarrow>
      DecreaseCallCount now (f1 # f2 # f3 # f4 # f5 # flags) s =
        (CallData_Destroy now None,
         s\<lparr>call_count := 0, last_idle_time := now,
           idle_timer := Timer_Pending (now + client_idle_timeout s),
           state := TIMER_PENDING\<rparr>,
         [Fetch_Sub 1 memory_order_relaxed, Write_Last_Idle_Time now,
          Load CALLS_ACTIVE memory_order_relaxed,
          Stack_Ref Max_idle_timer_callback, Timer_Init (now + client_idle_timeout s),
          Store TIMER_PENDING memory_order_release])) \<and>
   (call_count s = 1 \<and> state s = TIMER_PENDING_CALLS_ACTIVE \<longrightarrow>
      DecreaseCallCount now (f1 # f2 # f3 # replicate k True @ False # flags) s =
        (CallData_Destroy now None,
         s\<lparr>call_count := 0, last_idle_time := now,
           state := TIMER_PENDING_CALLS_SEEN_SINCE_TIMER_START\<rparr>,
         [Fetch_Sub 1 memory_order_relaxed, Write_Last_Idle_Time now,
          Load TIMER_PENDING_CALLS_ACTIVE memory_order_relaxed] @
         replicate k (CAS_Fail TIMER_PENDING_CALLS_ACTIVE TIMER_PENDING_CALLS_ACTIVE
                        memory_order_relaxed) @
         [CAS_Ok TIMER_PENDING_CALLS_ACTIVE TIMER_PENDING_CALLS_SEEN_SINCE_TIMER_START
            memory_order_release])) \<and>
   (call_count s = 1 \<and> state s \<noteq> CALLS_ACTIVE \<and> state s \<noteq> TIMER_PENDING_CALLS_ACTIVE \<longrightarrow>
      DecreaseCallCount now (f1 # f2 # f3 # flags) s =
        (CallData_Destroy now (Some (Dec_switch (state s))),
         s\<lparr>call_count := 0, last_idle_time := now\<rparr>,
         [Fetch_Sub 1 memory_order_relaxed, Write_Last_Idle_Time now,
          Load (state s) memory_order_relaxed] @
         replicate (length flags) (Load (state s) memory_order_relaxed))) \<and>
   (st \<noteq> CALLS_ACTIVE \<and> st \<noteq> TIMER_PENDING_CALLS_ACTIVE \<and> state s = CALLS_ACTIVE \<longrightarrow>
      run_thread (f1 # f2 # f3 # flags) (CallData_Destroy now (Some (Dec_switch st))) s =
        (CallData_Destroy now None,
         s\<lparr>idle_timer := Timer_Pending (last_idle_time s + client_idle_timeout s),
           state := TIMER_PENDING\<rparr>,
         [Load CALLS_ACTIVE memory_order_relaxed,
          Stack_Ref Max_idle_timer_callback,
          Timer_Init (last_idle_time s + client_idle_timeout s),
          Store TIMER_PENDING memory_order_release])) \<and>
   (st \<noteq> CALLS_ACTIVE \<and> st \<noteq> TIMER_PENDING_CALLS_ACTIVE \<and>
    state s = TIMER_PENDING_CALLS_ACTIVE \<longrightarrow>
      run_thread (f1 # replicate k True @ False # flags)
          (CallData_Destroy now (Some (Dec_switch st))) s =
        (CallData_Destroy now None, s\<lparr>state := TIMER_PENDING_CALLS_SEEN_SINCE_TIMER_START\<rparr>,
         Load TIMER_PENDING_CALLS_ACTIVE memory_order_relaxed #
         replicate k (CAS_Fail TIMER_PENDING_CALLS_ACTIVE TIMER_PENDING_CALLS_ACTIVE
                        memory_order_relaxed) @
         [CAS_Ok TIMER_PENDING_CALLS_ACTIVE TIMER_PENDING_CALLS_SEEN_SINCE_TIMER_START
            memory_order_release])) \<and>
   (state s = CALLS_ACTIVE \<longrightarrow>
      run_thread (f1 # f2 # f3 # flags)
          (CallData_Destroy now (Some (Dec_switch TIMER_PENDING_CALLS_ACTIVE))) s =
        (CallData_Destroy now None,
         s\<lparr>idle_timer := Timer_Pending (last_idle_time s + client_idle_timeout s),
           state := TIMER_PENDING\<rparr>,
         [CAS_Fail TIMER_PENDING_CALLS_ACTIVE CALLS_ACTIVE memory_order_relaxed,
          Stack_Ref Max_idle_timer_callback,
          Timer_Init (last_idle_time s + client_idle_timeout s),
          Store TIMER_PENDING memory_order_release])) \<and>
   (call_count s \<noteq> 1 \<longrightarrow>
      DecreaseCallCount now (f1 # flags) s =
        (CallData_Destroy now None, s\<lparr>call_count := call_count s - 1\<rparr>,
         [Fetch_Sub (call_count s) memory_order_relaxed]))"
proof -
  have spin: "state s \<noteq> CALLS_ACTIVE \<and> state s \<noteq> TIMER_PENDING_CALLS_ACTIVE \<Longrightarrow>
      run_thread flags (CallData_Destroy now (Some (Dec_switch (state s))))
         (s\<lparr>call_count := 0, last_idle_time := now\<rparr>) =
       (CallData_Destroy now (Some (Dec_switch (state s))),
        s\<lparr>call_count := 0, last_idle_time := now\<rparr>,
        replicate (length flags) (Load (state s) memory_order_relaxed))"
    using dec_spin [of "s\<lparr>call_count := 0, last_idle_time := now\<rparr>" flags now] by simp
  show ?thesis
    by (cases st)
       (simp_all add: DecreaseCallCount_def run_thread_returned dec_cas_retry dec_overtaken spin
          compare_exchange_weak_def StartIdleTimer_def grpc_timer_init_def Let_def)
qed

theorem DecreaseCallCount_of_the_last_call_witness:
  "DecreaseCallCount 9 [False, False, False, False, False]
      \<lparr>client_idle_timeout = 1000, last_idle_time = 7, call_count = 1,
       state = CALLS_ACTIVE, idle_timer = Timer_Unset\<rparr> =
     (CallData_Destroy 9 None,
      \<lparr>client_idle_timeout = 1000, last_idle_time = 9, call_count = 0,
       state = TIMER_PENDING, idle_timer = Timer_Pending 1009\<rparr>,
      [Fetch_Sub 1 memory_order_relaxed, Write_Last_Idle_Time 9,
       Load CALLS_ACTIVE memory_order_relaxed,
       Stack_Ref Max_idle_timer_callback, Timer_Init 1009,
       Store TIMER_PENDING memory_order_release]) \<and>
   DecreaseCallCount 9 [False, False, False, True, False]
      \<lparr>client_idle_timeout = 1000, last_idle_time = 7, call_count = 1,
       state = TIMER_PENDING_CALLS_ACTIVE, idle_timer = Timer_Pending 1007\<rparr> =
     (CallData_Destroy 9 None,
      \<lparr>client_idle_timeout = 1000, last_idle_time = 9, call_count = 0,
       state = TIMER_PENDING_CALLS_SEEN_SINCE_TIMER_START, idle_timer = Timer_Pending 1007\<rparr>,
      [Fetch_Sub 1 memory_order_relaxed, Write_Last_Idle_Time 9,
       Load TIMER_PENDING_CALLS_ACTIVE memory_order_relaxed,
       CAS_Fail TIMER_PENDING_CALLS_ACTIVE TIMER_PENDING_CALLS_ACTIVE memory_order_relaxed,
       CAS_Ok TIMER_PENDING_CALLS_ACTIVE TIMER_PENDING_CALLS_SEEN_SINCE_TIMER_START
         memory_order_release]) \<and>
   DecreaseCallCount 9 [False, False, False, False, False]
      \<lparr>client_idle_timeout = 1000, last_idle_time = 7, call_count = 1,
       state = PROCESSING, idle_timer = Timer_Unset\<rparr> =
     (CallData_Destroy 9 (Some (Dec_switch PROCESSING)),
      \<lparr>client_idle_timeout = 1000, last_idle_time = 9, call_count = 0,
       state = PROCESSING, idle_timer = Timer_Unset\<rparr>,
      [Fetch_Sub 1 memory_order_relaxed, Write_Last_Idle_Time 9,
       Load PROCESSING memory_order_relaxed, Load PROCESSING memory_order_relaxed,
       Load PROCESSING memory_order_relaxed]) \<and>
   run_thread [False, False, False] (CallData_Destroy 9 (Some (Dec_switch PROCESSING)))
      \<lparr>client_idle_timeout = 1000, last_idle_time = 9, call_count = 0,
       state = CALLS_ACTIVE, idle_timer = Timer_Unset\<rparr> =
     (CallData_Destroy 9 None,
      \<lparr>client_idle_timeout = 1000, last_idle_time = 9, call_count = 0,
       state = TIMER_PENDING, idle_timer = Timer_Pending 1009\<rparr>,
      [Load CALLS_ACTIVE memory_order_relaxed,
       Stack_Ref Max_idle_timer_callback, Timer_Init 1009,
       Store TIMER_PENDING memory_order_release]) \<and>
   run_thread [False, True, False] (CallData_Destroy 9 (Some (Dec_switch PROCESSING)))
      \<lparr>client_idle_timeout = 1000, last_idle_time = 9, call_count = 0,
       state = TIMER_PENDING_CALLS_ACTIVE, idle_timer = Timer_Pending 1007\<rparr> =
     (CallData_Destroy 9 None,
      \<lparr>client_idle_timeout = 1000, last_idle_time = 9, call_count = 0,
       state = TIMER_PENDING_CALLS_SEEN_SINCE_TIMER_START, idle_timer = Timer_Pending 1007\<rparr>,
      [Load TIMER_PENDING_CALLS_ACTIVE memory_order_relaxed,
       CAS_Fail TIMER_PENDING_CALLS_ACTIVE TIMER_PENDING_CALLS_ACTIVE memory_order_relaxed,
       CAS_Ok TIMER_PENDING_CALLS_ACTIVE TIMER_PENDING_CALLS_SEEN_SINCE_TIMER_START
         memory_order_release]) \<and>
   DecreaseCallCount 9 [False]
      \<lparr>client_idle_timeout = 1000, last_idle_time = 7, call_count = 3,
       state = CALLS_ACTIVE, idle_timer = Timer_Unset\<rparr> =
     (CallData_Destroy 9 None,
      \<lparr>client_idle_timeout = 1000, last_idle_time = 7, call_count = 2,
       state = CALLS_ACTIVE, idle_timer = Timer_Unset\<rparr>,
      [Fetch_Sub 3 memory_order_relaxed]) \<and>
   run_thread [False, False, False]
      (CallData_Destroy 9 (Some (Dec_switch TIMER_PENDING_CALLS_ACTIVE)))
      \<lparr>client_idle_timeout = 1000, last_idle_time = 9, call_count = 0,
       state = CALLS_ACTIVE, idle_timer = Timer_Unset\<rparr> =
     (CallData_Destroy 9 None,
      \<lparr>client_idle_timeout = 1000, last_idle_time = 9, call_count = 0,
       state = TIMER_PENDING, idle_timer = Timer_Pending 1009\<rparr>,
      [CAS_Fail TIMER_PENDING_CALLS_ACTIVE CALLS_ACTIVE memory_order_relaxed,
       Stack_Ref Max_idle_timer_callback, Timer_Init 1009,
       Store TIMER_PENDING memory_order_release])"
  using DecreaseCallCount_of_the_last_call
          [of "\<lparr>client_idle_timeout = 1000, last_idle_time = 7, call_count = 1,
                state = CALLS_ACTIVE, idle_timer = Timer_Unset\<rparr>"
              9 False False False False False "[]" "Suc 0" PROCESSING]
        DecreaseCallCount_of_the_last_call
          [of "\<lparr>client_idle_timeout = 1000, last_idle_time = 7, call_count = 1,
                state = TIMER_PENDING_CALLS_ACTIVE, idle_timer = Timer_Pending 1007\<rparr>"
              9 False False False False False "[]" "Suc 0" PROCESSING]
        DecreaseCallCount_of_the_last_call
          [of "\<lparr>client_idle_timeout = 1000, last_idle_time = 7, call_count = 1,
                state = PROCESSING, idle_timer = Timer_Unset\<rparr>"
              9 False False False False False "[False, False]" "Suc 0" PROCESSING]
        DecreaseCallCount_of_the_last_call
          [of "\<lparr>client_idle_timeout = 1000, last_idle_time = 9, call_count = 0,
                state = CALLS_ACTIVE, idle_timer = Timer_Unset\<rparr>"
              9 False False False False False "[]" "Suc 0" PROCESSING]
        DecreaseCallCount_of_the_last_call
          [of "\<lparr>client_idle_timeout = 1000, last_idle_time = 9, call_count = 0,
                state = TIMER_PENDING_CALLS_ACTIVE, idle_timer = Timer_Pending 1007\<rparr>"
              9 False False False False False "[]" "Suc 0" PROCESSING]
        DecreaseCallCount_of_the_last_call
          [of "\<lparr>client_idle_timeout = 1000, last_idle_time = 7, call_count = 3,
                state = CALLS_ACTIVE, idle_timer = Timer_Unset\<rparr>"
              9 False False False False False "[]" "Suc 0" PROCESSING]
  by simp



section \<open>Properties of the filter among its callers\<close>

lemmas run_simps =
  sys_step_def initial_system_def ChannelData_new_def spawn_def Let_def all_returned_def
  compare_exchange_weak_def StartIdleTimer_def EnterIdle_def
  grpc_timer_init_def grpc_timer_fire_def grpc_timer_cancel_def

subsection \<open>The counter\<close>

lemma inc_step_count:
  "IncreaseCallCount_step sp p s = (p', s', as) \<Longrightarrow>
   call_count s' = call_count s + (if p = Inc_fetch_add then 1 else 0) \<and> p' \<noteq> Some Inc_fetch_add"
  by (cases p) (auto simp: Let_def compare_exchange_weak_def split: ChannelState.splits if_splits)

lemma dec_step_count:
  "DecreaseCallCount_step now sp p s = (p', s', as) \<Longrightarrow>
   call_count s' = call_count s - (if p = Dec_fetch_sub then 1 else 0) \<and> p' \<noteq> Some Dec_fetch_sub"
  by (cases p) (auto simp: Let_def compare_exchange_weak_def StartIdleTimer_def split: ChannelState.splits if_splits)

lemma tim_step_count:
  "IdleTimerCallback_step err sp p s = (p', s', as) \<Longrightarrow> call_count s' = call_count s"
  by (cases p) (auto simp: Let_def compare_exchange_weak_def StartIdleTimer_def EnterIdle_def split: ChannelState.splits if_splits)

lemma thread_step_counted:
  assumes "thread_step sp t s = (t', s', as)" "well_formed t"
  shows "call_count s' - call_count s = counted t' - counted t \<and> well_formed t' \<and>
         invokes_IncreaseCallCount t' = invokes_IncreaseCallCount t \<and> invokes_DecreaseCallCount t' = invokes_DecreaseCallCount t"
proof (cases t)
  case (CallData_Init p)
  then show ?thesis using assms
    by (cases p) (auto split: prod.splits dest!: inc_step_count)
next
  case (CallData_Destroy now p)
  then show ?thesis using assms
    by (cases p) (auto split: prod.splits dest!: dec_step_count)
next
  case (IdleTimerCallback err p)
  then show ?thesis using assms
    by (cases p) (auto split: prod.splits dest!: tim_step_count)
next
  case (StartTransportOp d p)
  show ?thesis
  proof (cases p)
    case None
    then show ?thesis using assms StartTransportOp by auto
  next
    case (Some q)
    then show ?thesis using assms StartTransportOp
      by (cases q) (auto split: prod.splits option.splits if_splits dest!: inc_step_count)
  qed
qed


lemma sum_list_map_update:
  "i < length xs \<Longrightarrow>
   sum_list (map f (xs[i := y])) = sum_list (map f xs) - f (xs ! i) + (f y :: int)"
  by (induction xs arbitrary: i) (auto split: nat.splits)

lemma length_filter_update:
  "i < length xs \<Longrightarrow> P y = P (xs ! i) \<Longrightarrow>
   length (filter P (xs[i := y])) = length (filter P xs)"
  by (induction xs arbitrary: i) (auto split: nat.splits)

lemma list_all_update: "list_all P xs \<Longrightarrow> P y \<Longrightarrow> list_all P (xs[i := y])"
  by (induction xs arbitrary: i) (auto split: nat.splits)

lemma list_all_nth: "list_all P xs \<Longrightarrow> i < length xs \<Longrightarrow> P (xs ! i)"
  by (simp add: list_all_length)

lemma perform_balanced:
  assumes "perform ev c = Some c'" "balanced c"
  shows "balanced c' \<and>
         length (filter invokes_IncreaseCallCount (threads c')) =
           length (filter invokes_IncreaseCallCount (threads c)) + (if calls_IncreaseCallCount ev then 1 else 0) \<and>
         length (filter invokes_DecreaseCallCount (threads c')) =
           length (filter invokes_DecreaseCallCount (threads c)) + (if calls_DecreaseCallCount ev then 1 else 0)"
proof (cases ev)
  case (Step i sp)
  with assms(1) have i: "i < length (threads c)" "\<not> returned (threads c ! i)"
    by (auto split: if_splits)
  obtain t' s' as where st: "thread_step sp (threads c ! i) (chand c) = (t', s', as)"
    by (cases "thread_step sp (threads c ! i) (chand c)") auto
  from assms(2) i have wf: "well_formed (threads c ! i)"
    by (simp add: balanced_def list_all_nth)
  note k = thread_step_counted [OF st wf]
  from assms(1) Step i st
  have c': "chand c' = s'" "threads c' = (threads c)[i := t']" by auto
  show ?thesis
    using assms(2) k i c' Step
    by (simp add: balanced_def sum_list_map_update length_filter_update list_all_update)
qed (use assms in \<open>auto simp: balanced_def spawn_def grpc_timer_fire_def split: option.splits grpc_timer.splits\<close>)

lemma run_balanced:
  "run d evs c = Some c' \<Longrightarrow> balanced c \<Longrightarrow>
   balanced c' \<and>
   length (filter invokes_IncreaseCallCount (threads c')) =
     length (filter invokes_IncreaseCallCount (threads c)) + length (filter calls_IncreaseCallCount evs) \<and>
   length (filter invokes_DecreaseCallCount (threads c')) =
     length (filter invokes_DecreaseCallCount (threads c)) + length (filter calls_DecreaseCallCount evs)"
proof (induction evs arbitrary: c)
  case Nil
  then show ?case by simp
next
  case (Cons ev evs)
  from Cons.prems(1) obtain c1 where c1: "perform ev c = Some c1" "run d evs c1 = Some c'"
    by (auto simp: sys_step_def split: option.splits if_splits)
  from perform_balanced [OF c1(1) Cons.prems(2)] Cons.IH [OF c1(2)]
  show ?case by auto
qed

lemma counted_returned:
  "returned t \<or> is_IdleTimerCallback t \<Longrightarrow> well_formed t \<Longrightarrow>
   counted t =
     (if invokes_IncreaseCallCount t then 1 else 0) -
     (if invokes_DecreaseCallCount t then 1 else 0)"
  by (cases t) auto

lemma sum_counted_returned:
  "list_all (\<lambda>t. returned t \<or> is_IdleTimerCallback t) ts \<Longrightarrow> list_all well_formed ts \<Longrightarrow>
   sum_list (map counted ts) =
     int (length (filter invokes_IncreaseCallCount ts)) -
     int (length (filter invokes_DecreaseCallCount ts))"
  by (induction ts) (auto simp: counted_returned)

text \<open>
  Claim C5. Whatever the callers do and however the invocations interleave
  (any discipline, any schedule of steps, spurious failures included): whenever no
  call of \<open>IncreaseCallCount\<close> or \<open>DecreaseCallCount\<close> is in flight, \<open>call_count_\<close>
  is the number of calls of \<open>IncreaseCallCount\<close> made so far (one per
  \<open>CallData::Init\<close> and one per disconnect) minus the number of calls of
  \<open>DecreaseCallCount\<close> (one per \<open>CallData::Destroy\<close>).
\<close>

theorem call_count_at_quiescence:
  assumes "run d evs (initial_system timeout u) = Some c" and "no_call_in_flight c"
  shows "call_count (chand c) =
           int (length (filter calls_IncreaseCallCount evs)) -
           int (length (filter calls_DecreaseCallCount evs))"
proof -
  have "balanced (initial_system timeout u)"
    by (simp add: balanced_def initial_system_def ChannelData_new_def)
  from run_balanced [OF assms(1) this] assms(2) show ?thesis
    by (simp add: balanced_def no_call_in_flight_def sum_counted_returned initial_system_def)
qed

theorem call_count_at_quiescence_witness:
  "run Matched
     [Call_Init, Step 0 False, Call_Init, Step 1 False, Step 0 False, Step 0 False,
      Call_Destroy 5, Step 2 False, Call_Destroy 6, Step 3 False, Step 3 False, Step 3 False,
      Step 3 False, Step 3 False, Timer_Fire, Step 4 False,
      Transport_Op True, Step 5 False, Step 5 False, Step 5 False, Step 5 False,
      Step 5 False, Step 5 False] (initial_system 1000 0) \<noteq> None \<and>
   no_call_in_flight (the (run Matched
     [Call_Init, Step 0 False, Call_Init, Step 1 False, Step 0 False, Step 0 False,
      Call_Destroy 5, Step 2 False, Call_Destroy 6, Step 3 False, Step 3 False, Step 3 False,
      Step 3 False, Step 3 False, Timer_Fire, Step 4 False,
      Transport_Op True, Step 5 False, Step 5 False, Step 5 False, Step 5 False,
      Step 5 False, Step 5 False] (initial_system 1000 0))) \<and>
   call_count (chand (the (run Matched
     [Call_Init, Step 0 False, Call_Init, Step 1 False, Step 0 False, Step 0 False,
      Call_Destroy 5, Step 2 False, Call_Destroy 6, Step 3 False, Step 3 False, Step 3 False,
      Step 3 False, Step 3 False, Timer_Fire, Step 4 False,
      Transport_Op True, Step 5 False, Step 5 False, Step 5 False, Step 5 False,
      Step 5 False, Step 5 False] (initial_system 1000 0)))) = 1"
proof -
  let ?r = "run Matched
     [Call_Init, Step 0 False, Call_Init, Step 1 False, Step 0 False, Step 0 False,
      Call_Destroy 5, Step 2 False, Call_Destroy 6, Step 3 False, Step 3 False, Step 3 False,
      Step 3 False, Step 3 False, Timer_Fire, Step 4 False,
      Transport_Op True, Step 5 False, Step 5 False, Step 5 False, Step 5 False,
      Step 5 False, Step 5 False] (initial_system 1000 0)"
  have n: "?r \<noteq> None" by (simp add: run_simps)
  then have r: "?r = Some (the ?r)" by simp
  have q: "no_call_in_flight (the ?r)" by (simp add: run_simps no_call_in_flight_def)
  have e: "call_count (chand (the ?r)) = 1"
    using call_count_at_quiescence [OF r q] by simp
  show ?thesis by (intro conjI n q e)
qed

subsection \<open>Entering idle\<close>

lemma weight_nonneg: "0 \<le> weight t"
  by (cases t) auto

lemma sum_weight_nonneg: "0 \<le> sum_list (map weight ts)"
  by (induction ts) (auto simp: weight_nonneg)

lemma past_disconnect_weight: "past_disconnect t \<Longrightarrow> 1 \<le> weight t"
  by (cases t) auto

lemma disconnected_weight: "list_ex past_disconnect ts \<Longrightarrow> 1 \<le> sum_list (map weight ts)"
proof (induction ts)
  case Nil
  then show ?case by simp
next
  case (Cons t ts)
  show ?case
  proof (cases "past_disconnect t")
    case True
    from past_disconnect_weight [OF this] sum_weight_nonneg [of ts] show ?thesis by simp
  next
    case False
    with Cons weight_nonneg [of t] show ?thesis by simp
  qed
qed

lemma perform_log:
  "perform ev c = Some c' \<Longrightarrow>
   \<exists>as. log c' = log c @ map (Pair (call_count (chand c'))) as"
proof (cases ev)
  case (Step i sp)
  assume "perform ev c = Some c'"
  with Step show ?thesis
    by (auto split: if_splits prod.splits)
next
  case Timer_Fire
  assume "perform ev c = Some c'"
  with Timer_Fire show ?thesis
    by (auto simp: spawn_def split: option.splits intro: exI [of _ "[]"])
qed (auto simp: spawn_def intro: exI [of _ "[]"])

lemma consistent_first_increase:
  assumes "consistent 0 F L P FI LC st" "0 \<le> FI" "FI \<le> F" "F \<le> W" "lv + W \<le> 0" "0 \<le> lv"
  shows "consistent 1 (1 + F) L P FI LC st"
  using assms unfolding consistent_def by auto

lemma consistent_other_increase:
  assumes "consistent n F L P FI LC st" "1 \<le> n"
  shows "consistent (n + 1) F L P FI LC st"
  using assms unfolding consistent_def by auto

lemma consistent_increase_load:
  assumes "consistent n (1 + F) L P FI LC st"
  shows "consistent n (1 + F) L P ((if st = IDLE then 1 else 0) + FI) LC st"
  using assms unfolding consistent_def by auto

lemma consistent_store_CALLS_ACTIVE:
  assumes "consistent n (1 + F) L P (1 + FI) LC st" "0 \<le> FI" "FI \<le> F" "0 \<le> LC" "LC \<le> L"
    "0 \<le> P" "1 \<le> n"
  shows "st = IDLE \<and> consistent n F L P FI LC CALLS_ACTIVE"
  using assms unfolding consistent_def by auto

lemma consistent_increase_exchange:
  assumes "consistent n (1 + F) L P FI LC st"
    "st = TIMER_PENDING \<or> st = TIMER_PENDING_CALLS_SEEN_SINCE_TIMER_START"
    "0 \<le> FI" "FI \<le> F" "0 \<le> LC" "LC \<le> L" "0 \<le> P" "1 \<le> n"
  shows "consistent n F L P FI LC TIMER_PENDING_CALLS_ACTIVE"
  using assms unfolding consistent_def by auto

lemma consistent_last_decrease:
  assumes "consistent 1 F L P FI LC st" "0 \<le> FI" "FI \<le> F" "F \<le> 0" "0 \<le> LC" "LC \<le> L" "0 \<le> P"
  shows "consistent 0 F (1 + L) P FI LC st"
  using assms unfolding consistent_def by auto

lemma consistent_other_decrease:
  assumes "consistent n F L P FI LC st" "2 \<le> n"
  shows "consistent (n - 1) F L P FI LC st"
  using assms unfolding consistent_def by auto

lemma consistent_decrease_load:
  assumes "consistent n F (1 + L) P FI LC st"
  shows "consistent n F (1 + L) P FI ((if st = CALLS_ACTIVE then 1 else 0) + LC) st"
  using assms unfolding consistent_def by auto

lemma consistent_decrease_exchange:
  assumes "consistent n F (1 + L) P FI LC TIMER_PENDING_CALLS_ACTIVE"
    "0 \<le> FI" "FI \<le> F" "0 \<le> LC" "LC \<le> L" "0 \<le> P"
  shows "consistent n F L P FI LC TIMER_PENDING_CALLS_SEEN_SINCE_TIMER_START"
  using assms unfolding consistent_def by auto

lemma consistent_decrease_store:
  assumes "consistent n F (1 + L) P FI (1 + LC) st"
    "0 \<le> FI" "FI \<le> F" "0 \<le> LC" "LC \<le> L" "0 \<le> P"
  shows "st = CALLS_ACTIVE \<and> consistent n F L P FI LC TIMER_PENDING"
  using assms unfolding consistent_def by auto

lemma consistent_enter_PROCESSING:
  assumes "consistent n F L P FI LC st"
    "st = TIMER_PENDING \<or> st = TIMER_PENDING_CALLS_SEEN_SINCE_TIMER_START"
    "0 \<le> FI" "FI \<le> F" "0 \<le> LC" "LC \<le> L" "0 \<le> P"
  shows "consistent n F L (1 + P) FI LC PROCESSING"
  using assms unfolding consistent_def by (auto split: if_splits)

lemma consistent_timer_dropped:
  assumes "consistent n F L P FI LC TIMER_PENDING_CALLS_ACTIVE"
    "0 \<le> FI" "FI \<le> F" "0 \<le> LC" "LC \<le> L" "0 \<le> P"
  shows "consistent n F L P FI LC CALLS_ACTIVE"
  using assms unfolding consistent_def by auto

lemma consistent_leave_PROCESSING:
  assumes "consistent n F L (1 + P) FI LC st"
    "st' = IDLE \<or> st' = TIMER_PENDING"
    "0 \<le> FI" "FI \<le> F" "0 \<le> LC" "LC \<le> L" "0 \<le> P"
  shows "st = PROCESSING \<and> consistent n F L P FI LC st'"
  using assms unfolding consistent_def by auto

lemma inc_step_consistent:
  assumes step: "IncreaseCallCount_step sp p s = (p', s', as)"
    and pre: "consistent (call_count s) ((if p \<noteq> Inc_fetch_add then 1 else 0) + F) L P
           ((if p = Inc_switch IDLE then 1 else 0) + FI) LC (state s)"
    and w: "0 \<le> lv" "lv + (if p \<noteq> Inc_fetch_add then 1 else 0) + W \<le> call_count s"
    and rest: "0 \<le> FI" "FI \<le> F" "F \<le> W" "0 \<le> LC" "LC \<le> L" "0 \<le> P"
  shows "consistent (call_count s') ((if p' \<noteq> None then 1 else 0) + F) L P
           ((if p' = Some (Inc_switch IDLE) then 1 else 0) + FI) LC (state s') \<and>
         lv + 1 + W \<le> call_count s' \<and> p' \<noteq> Some Inc_fetch_add \<and> Enter_Idle \<notin> set as"
proof (cases p)
  case Inc_fetch_add
  from pre Inc_fetch_add have c: "consistent (call_count s) F L P FI LC (state s)" by simp
  from w Inc_fetch_add have le: "lv + W \<le> call_count s" by simp
  show ?thesis
  proof (cases "call_count s = 0")
    case True
    from c le have "consistent 1 (1 + F) L P FI LC (state s)"
      unfolding True by (rule consistent_first_increase [OF _ rest(1,2,3) _ w(1)])
    with step Inc_fetch_add True le show ?thesis by (auto simp: Let_def)
  next
    case False
    with le w(1) rest have "1 \<le> call_count s" by simp
    from consistent_other_increase [OF c this] step Inc_fetch_add False le
    show ?thesis by (auto simp: Let_def)
  qed
next
  case Inc_load
  from pre Inc_load have "consistent (call_count s) (1 + F) L P FI LC (state s)" by simp
  from consistent_increase_load [OF this] step Inc_load w show ?thesis by auto
next
  case (Inc_switch st)
  from w Inc_switch have n: "1 \<le> call_count s" "lv + 1 + W \<le> call_count s"
    using rest by simp_all
  have reload: ?thesis
    if "p' = Some (Inc_switch (state s))" "s' = s" "Enter_Idle \<notin> set as" "st \<noteq> IDLE"
  proof -
    from pre Inc_switch that(4)
    have "consistent (call_count s) (1 + F) L P FI LC (state s)" by simp
    from consistent_increase_load [OF this] that n show ?thesis by simp
  qed
  have exchange: ?thesis
    if "p' = None" "s' = s\<lparr>state := TIMER_PENDING_CALLS_ACTIVE\<rparr>" "Enter_Idle \<notin> set as"
      "st \<noteq> IDLE" "state s = TIMER_PENDING \<or> state s = TIMER_PENDING_CALLS_SEEN_SINCE_TIMER_START"
  proof -
    from pre Inc_switch that(4)
    have "consistent (call_count s) (1 + F) L P FI LC (state s)" by simp
    from consistent_increase_exchange [OF this that(5) rest(1,2,4,5,6) n(1)] that n
    show ?thesis by simp
  qed
  show ?thesis
  proof (cases st)
    case IDLE
    from pre Inc_switch IDLE
    have "consistent (call_count s) (1 + F) L P (1 + FI) LC (state s)" by simp
    from consistent_store_CALLS_ACTIVE [OF this rest(1,2,4,5,6) n(1)] step Inc_switch IDLE n
    show ?thesis by auto
  next
    case CALLS_ACTIVE
    with step Inc_switch show ?thesis by (intro reload) auto
  next
    case TIMER_PENDING
    show ?thesis
    proof (cases "state s = TIMER_PENDING \<and> \<not> sp")
      case True
      with step Inc_switch TIMER_PENDING show ?thesis
        by (intro exchange) (auto simp: compare_exchange_weak_def)
    next
      case False
      with step Inc_switch TIMER_PENDING show ?thesis
        by (intro reload) (auto simp: compare_exchange_weak_def)
    qed
  next
    case TIMER_PENDING_CALLS_ACTIVE
    with step Inc_switch show ?thesis by (intro reload) auto
  next
    case TIMER_PENDING_CALLS_SEEN_SINCE_TIMER_START
    show ?thesis
    proof (cases "state s = TIMER_PENDING_CALLS_SEEN_SINCE_TIMER_START \<and> \<not> sp")
      case True
      with step Inc_switch TIMER_PENDING_CALLS_SEEN_SINCE_TIMER_START show ?thesis
        by (intro exchange) (auto simp: compare_exchange_weak_def)
    next
      case False
      with step Inc_switch TIMER_PENDING_CALLS_SEEN_SINCE_TIMER_START show ?thesis
        by (intro reload) (auto simp: compare_exchange_weak_def)
    qed
  next
    case PROCESSING
    with step Inc_switch show ?thesis by (intro reload) auto
  qed
qed

lemma dec_step_consistent:
  assumes step: "DecreaseCallCount_step now sp p s = (p', s', as)"
    and pre: "consistent (call_count s) F ((if p \<noteq> Dec_fetch_sub then 1 else 0) + L) P FI
           ((if p = Dec_switch CALLS_ACTIVE \<or> p = Dec_store_TIMER_PENDING then 1 else 0) + LC)
           (state s)"
    and w: "0 \<le> lv" "lv + (if p = Dec_fetch_sub then 1 else 0) + W \<le> call_count s"
    and rest: "0 \<le> FI" "FI \<le> F" "F \<le> W" "0 \<le> LC" "LC \<le> L" "0 \<le> P"
  shows "consistent (call_count s') F ((if p' \<noteq> None then 1 else 0) + L) P FI
           ((if p' = Some (Dec_switch CALLS_ACTIVE) \<or> p' = Some Dec_store_TIMER_PENDING
             then 1 else 0) + LC) (state s') \<and>
         lv + W \<le> call_count s' \<and> p' \<noteq> Some Dec_fetch_sub \<and> Enter_Idle \<notin> set as"
proof (cases p)
  case Dec_fetch_sub
  from pre Dec_fetch_sub have c: "consistent (call_count s) F L P FI LC (state s)" by simp
  from w Dec_fetch_sub have le: "lv + 1 + W \<le> call_count s" by simp
  show ?thesis
  proof (cases "call_count s = 1")
    case True
    with le w(1) rest have "F \<le> 0" by simp
    from c have "consistent 0 F (1 + L) P FI LC (state s)"
      unfolding True by (rule consistent_last_decrease [OF _ rest(1,2) \<open>F \<le> 0\<close> rest(4,5,6)])
    with step Dec_fetch_sub True le show ?thesis by (auto simp: Let_def)
  next
    case False
    with le w(1) rest have "2 \<le> call_count s" by simp
    from consistent_other_decrease [OF c this] step Dec_fetch_sub False le
    show ?thesis by (auto simp: Let_def)
  qed
next
  case Dec_last_idle_time
  with step pre w show ?thesis by auto
next
  case Dec_load
  from pre Dec_load have "consistent (call_count s) F (1 + L) P FI LC (state s)" by simp
  from consistent_decrease_load [OF this] step Dec_load w show ?thesis by auto
next
  case (Dec_switch st)
  from w Dec_switch have n: "lv + W \<le> call_count s" by simp
  have reload: ?thesis
    if "p' = Some (Dec_switch (state s))" "s' = s" "Enter_Idle \<notin> set as" "st \<noteq> CALLS_ACTIVE"
  proof -
    from pre Dec_switch that(4)
    have "consistent (call_count s) F (1 + L) P FI LC (state s)" by simp
    from consistent_decrease_load [OF this] that n show ?thesis by simp
  qed
  show ?thesis
  proof (cases st)
    case IDLE
    with step Dec_switch show ?thesis by (intro reload) auto
  next
    case CALLS_ACTIVE
    with step Dec_switch pre n show ?thesis by (auto simp: StartIdleTimer_def Let_def)
  next
    case TIMER_PENDING
    with step Dec_switch show ?thesis by (intro reload) auto
  next
    case TIMER_PENDING_CALLS_ACTIVE
    show ?thesis
    proof (cases "state s = TIMER_PENDING_CALLS_ACTIVE \<and> \<not> sp")
      case True
      from pre Dec_switch TIMER_PENDING_CALLS_ACTIVE True
      have "consistent (call_count s) F (1 + L) P FI LC TIMER_PENDING_CALLS_ACTIVE" by simp
      from consistent_decrease_exchange [OF this rest(1,2,4,5,6)] step Dec_switch
        TIMER_PENDING_CALLS_ACTIVE True n
      show ?thesis by (auto simp: compare_exchange_weak_def)
    next
      case False
      with step Dec_switch TIMER_PENDING_CALLS_ACTIVE show ?thesis
        by (intro reload) (auto simp: compare_exchange_weak_def)
    qed
  next
    case TIMER_PENDING_CALLS_SEEN_SINCE_TIMER_START
    with step Dec_switch show ?thesis by (intro reload) auto
  next
    case PROCESSING
    with step Dec_switch show ?thesis by (intro reload) auto
  qed
next
  case Dec_store_TIMER_PENDING
  from pre Dec_store_TIMER_PENDING
  have "consistent (call_count s) F (1 + L) P FI (1 + LC) (state s)" by simp
  from consistent_decrease_store [OF this rest(1,2,4,5,6)] step Dec_store_TIMER_PENDING w
  show ?thesis by auto
qed

lemma tim_step_consistent:
  assumes step: "IdleTimerCallback_step err sp p s = (p', s', as)"
    and pre: "consistent (call_count s) F L
           ((if holds_PROCESSING (IdleTimerCallback err (Some p)) then 1 else 0) + P) FI LC
           (state s)"
    and rest: "0 \<le> FI" "FI \<le> F" "0 \<le> LC" "LC \<le> L" "0 \<le> P"
  shows "consistent (call_count s') F L
           ((if holds_PROCESSING (IdleTimerCallback err p') then 1 else 0) + P) FI LC
           (state s') \<and>
         call_count s' = call_count s \<and>
         (Enter_Idle \<in> set as \<longrightarrow> holds_PROCESSING (IdleTimerCallback err p'))"
proof (cases p)
  case Tim_entry
  with step pre show ?thesis by (auto split: if_splits)
next
  case (Tim_switch st)
  from pre Tim_switch have c: "consistent (call_count s) F L P FI LC (state s)" by simp
  have reload: ?thesis
    if "p' = Some (Tim_switch (state s))" "s' = s" "Enter_Idle \<notin> set as"
    using that c by simp
  have enter: ?thesis
    if "p' = Some Tim_EnterIdle \<or> p' = Some Tim_StartIdleTimer"
      "s' = s\<lparr>state := PROCESSING\<rparr>" "Enter_Idle \<notin> set as"
      "state s = TIMER_PENDING \<or> state s = TIMER_PENDING_CALLS_SEEN_SINCE_TIMER_START"
    using consistent_enter_PROCESSING [OF c that(4) rest] that(1,2,3) by auto
  show ?thesis
  proof (cases st)
    case IDLE
    with step Tim_switch show ?thesis by (intro reload) auto
  next
    case CALLS_ACTIVE
    with step Tim_switch show ?thesis by (intro reload) auto
  next
    case TIMER_PENDING
    show ?thesis
    proof (cases "state s = TIMER_PENDING \<and> \<not> sp")
      case True
      with step Tim_switch TIMER_PENDING show ?thesis
        by (intro enter) (auto simp: compare_exchange_weak_def)
    next
      case False
      with step Tim_switch TIMER_PENDING show ?thesis
        by (intro reload) (auto simp: compare_exchange_weak_def)
    qed
  next
    case TIMER_PENDING_CALLS_ACTIVE
    show ?thesis
    proof (cases "state s = TIMER_PENDING_CALLS_ACTIVE \<and> \<not> sp")
      case True
      with c have "consistent (call_count s) F L P FI LC TIMER_PENDING_CALLS_ACTIVE" by simp
      from consistent_timer_dropped [OF this rest] step Tim_switch TIMER_PENDING_CALLS_ACTIVE True
      show ?thesis by (auto simp: compare_exchange_weak_def)
    next
      case False
      with step Tim_switch TIMER_PENDING_CALLS_ACTIVE show ?thesis
        by (intro reload) (auto simp: compare_exchange_weak_def)
    qed
  next
    case TIMER_PENDING_CALLS_SEEN_SINCE_TIMER_START
    show ?thesis
    proof (cases "state s = TIMER_PENDING_CALLS_SEEN_SINCE_TIMER_START \<and> \<not> sp")
      case True
      with step Tim_switch TIMER_PENDING_CALLS_SEEN_SINCE_TIMER_START show ?thesis
        by (intro enter) (auto simp: compare_exchange_weak_def)
    next
      case False
      with step Tim_switch TIMER_PENDING_CALLS_SEEN_SINCE_TIMER_START show ?thesis
        by (intro reload) (auto simp: compare_exchange_weak_def)
    qed
  next
    case PROCESSING
    with step Tim_switch show ?thesis by (intro reload) auto
  qed
next
  case Tim_EnterIdle
  with step pre show ?thesis by (auto simp: EnterIdle_def)
next
  case Tim_store_IDLE
  from pre Tim_store_IDLE have "consistent (call_count s) F L (1 + P) FI LC (state s)" by simp
  from consistent_leave_PROCESSING [OF this _ rest, of IDLE] step Tim_store_IDLE
  show ?thesis by auto
next
  case Tim_StartIdleTimer
  with step pre show ?thesis by (auto simp: StartIdleTimer_def Let_def)
next
  case Tim_store_TIMER_PENDING
  from pre Tim_store_TIMER_PENDING
  have "consistent (call_count s) F L (1 + P) FI LC (state s)" by simp
  from consistent_leave_PROCESSING [OF this _ rest, of TIMER_PENDING] step Tim_store_TIMER_PENDING
  show ?thesis by auto
qed

lemma top_step_consistent:
  assumes step: "StartTransportOp_step d sp p s = (p', s', as)"
    and wf: "well_formed (StartTransportOp d (Some p))"
    and pre: "consistent (call_count s)
           ((if makes_busy (StartTransportOp d (Some p)) then 1 else 0) + F) L P
           ((if saw_IDLE (StartTransportOp d (Some p)) then 1 else 0) + FI) LC (state s)"
    and w: "0 \<le> lv" "lv + weight (StartTransportOp d (Some p)) + W \<le> call_count s"
    and rest: "0 \<le> FI" "FI \<le> F" "F \<le> W" "0 \<le> LC" "LC \<le> L" "0 \<le> P"
  shows "consistent (call_count s')
           ((if makes_busy (StartTransportOp d p') then 1 else 0) + F) L P
           ((if saw_IDLE (StartTransportOp d p') then 1 else 0) + FI) LC (state s') \<and>
         well_formed (StartTransportOp d p') \<and>
         lv + weight (StartTransportOp d p') + W \<le> call_count s' \<and> Enter_Idle \<notin> set as"
proof (cases p)
  case Top_entry
  with step pre w show ?thesis by (auto split: if_splits)
next
  case (Top_IncreaseCallCount q)
  with wf have d: d by simp
  obtain q' where q': "IncreaseCallCount_step sp q s = (q', s', as)"
    "p' = (case q' of None \<Rightarrow> Some Top_grpc_timer_cancel | Some r \<Rightarrow> Some (Top_IncreaseCallCount r))"
    using step Top_IncreaseCallCount
    by (cases "IncreaseCallCount_step sp q s") (auto split: option.splits)
  from pre Top_IncreaseCallCount d
  have c: "consistent (call_count s) ((if q \<noteq> Inc_fetch_add then 1 else 0) + F) L P
             ((if q = Inc_switch IDLE then 1 else 0) + FI) LC (state s)" by simp
  from w Top_IncreaseCallCount d
  have le: "lv + (if q \<noteq> Inc_fetch_add then 1 else 0) + W \<le> call_count s"
    by (auto split: if_splits)
  note k = inc_step_consistent [OF q'(1) c w(1) le rest]
  show ?thesis
  proof (cases q')
    case None
    with k q'(2) d show ?thesis by simp
  next
    case (Some r)
    with k q'(2) d show ?thesis by simp
  qed
next
  case Top_grpc_timer_cancel
  with step pre w wf show ?thesis by auto
next
  case Top_next_op
  with step pre w wf show ?thesis by auto
qed

lemma thread_step_consistent:
  assumes step: "thread_step sp t s = (t', s', as)" and run: "\<not> returned t"
    and wf: "well_formed t"
    and pre: "consistent (call_count s)
           ((if makes_busy t then 1 else 0) + F) ((if makes_idle t then 1 else 0) + L)
           ((if holds_PROCESSING t then 1 else 0) + P)
           ((if saw_IDLE t then 1 else 0) + FI) ((if saw_CALLS_ACTIVE t then 1 else 0) + LC)
           (state s)"
    and w: "0 \<le> lv" "lv + weight t + W \<le> call_count s"
    and rest: "0 \<le> FI" "FI \<le> F" "F \<le> W" "0 \<le> LC" "LC \<le> L" "0 \<le> P"
  shows "consistent (call_count s')
           ((if makes_busy t' then 1 else 0) + F) ((if makes_idle t' then 1 else 0) + L)
           ((if holds_PROCESSING t' then 1 else 0) + P)
           ((if saw_IDLE t' then 1 else 0) + FI) ((if saw_CALLS_ACTIVE t' then 1 else 0) + LC)
           (state s') \<and>
         well_formed t' \<and>
         lv + (if is_CallData_Init t' \<and> returned t' then 1 else 0) + weight t' + W
           \<le> call_count s' \<and>
         (Enter_Idle \<in> set as \<longrightarrow> holds_PROCESSING t')"
proof (cases t)
  case (CallData_Init po)
  with run obtain p where p: "po = Some p" by auto
  obtain p' where p': "IncreaseCallCount_step sp p s = (p', s', as)" "t' = CallData_Init p'"
    using step CallData_Init p by (cases "IncreaseCallCount_step sp p s") auto
  from pre CallData_Init p
  have c: "consistent (call_count s) ((if p \<noteq> Inc_fetch_add then 1 else 0) + F) L P
             ((if p = Inc_switch IDLE then 1 else 0) + FI) LC (state s)" by simp
  from w CallData_Init p
  have le: "lv + (if p \<noteq> Inc_fetch_add then 1 else 0) + W \<le> call_count s"
    by (auto split: if_splits)
  note k = inc_step_consistent [OF p'(1) c w(1) le rest]
  show ?thesis
  proof (cases p')
    case None
    with k p'(2) show ?thesis by simp
  next
    case (Some r)
    with k p'(2) show ?thesis by simp
  qed
next
  case (CallData_Destroy now po)
  with run obtain p where p: "po = Some p" by auto
  obtain p' where p': "DecreaseCallCount_step now sp p s = (p', s', as)"
    "t' = CallData_Destroy now p'"
    using step CallData_Destroy p by (cases "DecreaseCallCount_step now sp p s") auto
  from pre CallData_Destroy p
  have c: "consistent (call_count s) F ((if p \<noteq> Dec_fetch_sub then 1 else 0) + L) P FI
             ((if p = Dec_switch CALLS_ACTIVE \<or> p = Dec_store_TIMER_PENDING then 1 else 0) + LC)
             (state s)" by simp
  from w CallData_Destroy p
  have le: "lv + (if p = Dec_fetch_sub then 1 else 0) + W \<le> call_count s"
    by (auto split: if_splits)
  note k = dec_step_consistent [OF p'(1) c w(1) le rest]
  show ?thesis
  proof (cases p')
    case None
    with k p'(2) show ?thesis by simp
  next
    case (Some r)
    with k p'(2) show ?thesis by simp
  qed
next
  case (IdleTimerCallback err po)
  with run obtain p where p: "po = Some p" by auto
  obtain p' where p': "IdleTimerCallback_step err sp p s = (p', s', as)"
    "t' = IdleTimerCallback err p'"
    using step IdleTimerCallback p by (cases "IdleTimerCallback_step err sp p s") auto
  from pre IdleTimerCallback p
  have c: "consistent (call_count s) F L
             ((if holds_PROCESSING (IdleTimerCallback err (Some p)) then 1 else 0) + P) FI LC
             (state s)" by simp
  note k = tim_step_consistent [OF p'(1) c rest(1,2,4,5,6)]
  from w IdleTimerCallback have "lv + W \<le> call_count s" by simp
  with k p'(2) show ?thesis by (auto split: if_splits)
next
  case (StartTransportOp d po)
  with run obtain p where p: "po = Some p" by auto
  obtain p' where p': "StartTransportOp_step d sp p s = (p', s', as)"
    "t' = StartTransportOp d p'"
    using step StartTransportOp p by (cases "StartTransportOp_step d sp p s") auto
  from pre StartTransportOp p
  have c: "consistent (call_count s)
           ((if makes_busy (StartTransportOp d (Some p)) then 1 else 0) + F) L P
           ((if saw_IDLE (StartTransportOp d (Some p)) then 1 else 0) + FI) LC (state s)"
    by simp
  from wf w StartTransportOp p
  have wf': "well_formed (StartTransportOp d (Some p))"
    and le: "lv + weight (StartTransportOp d (Some p)) + W \<le> call_count s" by simp_all
  note k = top_step_consistent [OF p'(1) wf' c w(1) le rest]
  with p'(2) show ?thesis by simp
qed

lemma sum_list_pointwise:
  "(\<And>x. f x \<le> (g x :: int)) \<Longrightarrow> sum_list (map f xs) \<le> sum_list (map g xs)"
  by (induction xs) (auto intro: add_mono)

lemma sum_list_rest_mono:
  assumes "\<And>x. f x \<le> (g x :: int)" "i < length xs"
  shows "sum_list (map f xs) - f (xs ! i) \<le> sum_list (map g xs) - g (xs ! i)"
  using assms(2)
proof (induction xs arbitrary: i)
  case Nil
  then show ?case by simp
next
  case (Cons x xs)
  show ?case
  proof (cases i)
    case 0
    with sum_list_pointwise [of f g xs, OF assms(1)] show ?thesis by simp
  next
    case (Suc j)
    with Cons.prems have "j < length xs" by simp
    from Cons.IH [OF this] assms(1) [of x] Suc show ?thesis by simp
  qed
qed

lemma number_update:
  "i < length ts \<Longrightarrow>
   number P (ts[i := t]) =
     (if P t then 1 else 0) + (number P ts - (if P (ts ! i) then 1 else 0))"
  by (simp add: number_def sum_list_map_update)

lemma number_snoc: "number P (ts @ [t]) = number P ts + (if P t then 1 else 0)"
  by (simp add: number_def)

lemma number_rest_le:
  assumes "\<And>t. P t \<Longrightarrow> Q t" "i < length ts"
  shows "number P ts - (if P (ts ! i) then 1 else 0) \<le> number Q ts - (if Q (ts ! i) then 1 else 0)"
  unfolding number_def
  by (rule sum_list_rest_mono [OF _ assms(2)]) (use assms(1) in auto)

lemma number_rest_nonneg:
  assumes "i < length ts"
  shows "0 \<le> number P ts - (if P (ts ! i) then 1 else 0)"
  using sum_list_rest_mono [of "\<lambda>t. 0" "\<lambda>t. if P t then 1 else 0" i ts] assms
  by (simp add: number_def)

lemma number_rest_weight:
  assumes "i < length ts"
  shows "number makes_busy ts - (if makes_busy (ts ! i) then 1 else 0)
           \<le> sum_list (map weight ts) - weight (ts ! i)"
  unfolding number_def
proof (rule sum_list_rest_mono [OF _ assms])
  fix t
  show "(if makes_busy t then 1 else 0) \<le> weight t"
    by (cases t rule: makes_busy.cases) auto
qed

lemma number_nonneg: "0 \<le> number P ts"
  unfolding number_def by (induction ts) auto


lemma saw_IDLE_makes_busy: "saw_IDLE t \<Longrightarrow> makes_busy t"
  by (cases t rule: saw_IDLE.cases) auto

lemma saw_CALLS_ACTIVE_makes_idle: "saw_CALLS_ACTIVE t \<Longrightarrow> makes_idle t"
  by (cases t rule: saw_CALLS_ACTIVE.cases) auto


lemma enter_idles_step:
  assumes "log c' = log c @ map (Pair n) as" "enter_idles c < enter_idles c'"
  shows "Enter_Idle \<in> set as"
proof (rule ccontr)
  assume "Enter_Idle \<notin> set as"
  then have "filter (\<lambda>e. snd e = Enter_Idle) (map (Pair n) as) = []"
    by (auto simp: filter_empty_conv)
  with assms show False by (simp add: enter_idles_def)
qed

lemma sys_step_overlap_inv:
  assumes step: "sys_step d ev c = Some c'" and d: "d \<noteq> Any_Order" and inv: "overlap_inv c"
  shows "overlap_inv c' \<and>
         (enter_idles c < enter_idles c' \<longrightarrow> 1 \<le> number holds_PROCESSING (threads c'))"
proof (cases ev)
  case Call_Init
  with step have c': "c' = spawn (CallData_Init (Some Inc_fetch_add)) c"
    by (auto simp: sys_step_def split: if_splits)
  from inv show ?thesis
    by (simp add: c' overlap_inv_def spawn_def number_snoc enter_idles_def)
next
  case (Call_Destroy now)
  with step d have live: "0 < live_calls c"
    and c': "c' = spawn (CallData_Destroy now (Some Dec_fetch_sub))
                    (c\<lparr>live_calls := live_calls c - 1\<rparr>)"
    by (cases d; auto simp: sys_step_def split: if_splits)+
  from inv live show ?thesis
    by (simp add: c' overlap_inv_def spawn_def number_snoc enter_idles_def)
next
  case (Transport_Op dis)
  with step have c': "c' = spawn (StartTransportOp dis (Some Top_entry)) c"
    by (auto simp: sys_step_def split: if_splits)
  from inv show ?thesis
    by (simp add: c' overlap_inv_def spawn_def number_snoc enter_idles_def)
next
  case Timer_Fire
  with step obtain err
    where c': "c' = spawn (IdleTimerCallback err (Some Tim_entry))
                    (c\<lparr>chand := (chand c)\<lparr>idle_timer := Timer_Unset\<rparr>\<rparr>)"
    by (auto simp: sys_step_def split: if_splits option.splits)
  from inv show ?thesis
    by (simp add: c' overlap_inv_def spawn_def number_snoc enter_idles_def)
next
  case (Step i sp)
  with step have i: "i < length (threads c)" "\<not> returned (threads c ! i)"
    by (auto simp: sys_step_def split: if_splits)
  obtain t' s' as where st: "thread_step sp (threads c ! i) (chand c) = (t', s', as)"
    by (cases "thread_step sp (threads c ! i) (chand c)") auto
  from step Step i st
  have c': "chand c' = s'" "threads c' = (threads c)[i := t']"
       "live_calls c' = live_calls c + (if is_CallData_Init t' \<and> returned t' then 1 else 0)"
       "log c' = log c @ map (Pair (call_count s')) as"
    by (auto simp: sys_step_def split: if_splits)
  let ?ts = "threads c" and ?t = "threads c ! i"
  let ?F = "number makes_busy ?ts - (if makes_busy ?t then 1 else 0)"
  let ?L = "number makes_idle ?ts - (if makes_idle ?t then 1 else 0)"
  let ?P = "number holds_PROCESSING ?ts - (if holds_PROCESSING ?t then 1 else 0)"
  let ?FI = "number saw_IDLE ?ts - (if saw_IDLE ?t then 1 else 0)"
  let ?LC = "number saw_CALLS_ACTIVE ?ts - (if saw_CALLS_ACTIVE ?t then 1 else 0)"
  let ?W = "sum_list (map weight ?ts) - weight ?t"
  from inv i(1) have wf: "well_formed ?t" by (simp add: overlap_inv_def list_all_nth)
  from inv have pre: "consistent (call_count (chand c))
           ((if makes_busy ?t then 1 else 0) + ?F) ((if makes_idle ?t then 1 else 0) + ?L)
           ((if holds_PROCESSING ?t then 1 else 0) + ?P)
           ((if saw_IDLE ?t then 1 else 0) + ?FI) ((if saw_CALLS_ACTIVE ?t then 1 else 0) + ?LC)
           (state (chand c))"
    by (simp add: overlap_inv_def)
  from inv have w: "0 \<le> live_calls c" "live_calls c + weight ?t + ?W \<le> call_count (chand c)"
    by (simp_all add: overlap_inv_def)
  note k = thread_step_consistent [OF st i(2) wf pre w
      number_rest_nonneg [OF i(1)] number_rest_le [OF saw_IDLE_makes_busy i(1)]
      number_rest_weight [OF i(1)]
      number_rest_nonneg [OF i(1)] number_rest_le [OF saw_CALLS_ACTIVE_makes_idle i(1)]
      number_rest_nonneg [OF i(1)]]
  from inv have wfs: "list_all well_formed ?ts" by (simp add: overlap_inv_def)
  have 1: "list_all well_formed (threads c')"
    using wfs k by (simp add: c' list_all_update)
  have 2: "0 \<le> live_calls c'" using w(1) by (simp add: c')
  have 3: "live_calls c' + sum_list (map weight (threads c')) \<le> call_count (chand c')"
    using k i(1) by (simp add: c' sum_list_map_update)
  have 4: "consistent (call_count (chand c'))
        (number makes_busy (threads c')) (number makes_idle (threads c'))
        (number holds_PROCESSING (threads c'))
        (number saw_IDLE (threads c')) (number saw_CALLS_ACTIVE (threads c'))
        (state (chand c'))"
    using k i(1) by (simp add: c' number_update)
  have 5: "1 \<le> number holds_PROCESSING (threads c')" if "enter_idles c < enter_idles c'"
  proof -
    from enter_idles_step [OF c'(4) that] k have "holds_PROCESSING t'" by simp
    with number_rest_nonneg [OF i(1), of holds_PROCESSING] i(1)
    show ?thesis by (simp add: c' number_update)
  qed
  from 1 2 3 4 5 show ?thesis by (simp add: overlap_inv_def)
qed

lemma run_overlap_inv:
  "run d evs c = Some c' \<Longrightarrow> d \<noteq> Any_Order \<Longrightarrow> overlap_inv c \<Longrightarrow> overlap_inv c'"
proof (induction evs arbitrary: c)
  case Nil
  then show ?case by simp
next
  case (Cons ev evs)
  from Cons.prems(1) obtain c1
    where c1: "sys_step d ev c = Some c1" "run d evs c1 = Some c'"
    by (auto split: option.splits)
  from sys_step_overlap_inv [OF c1(1) Cons.prems(2,3)] have "overlap_inv c1" by simp
  from Cons.IH [OF c1(2) Cons.prems(2) this] show ?case .
qed

lemma overlap_inv_initial: "overlap_inv (initial_system timeout u)"
  by (simp add: overlap_inv_def initial_system_def ChannelData_new_def number_def consistent_def)




subsection \<open>After a disconnect\<close>

lemma list_ex_update:
  "list_ex P xs \<Longrightarrow> i < length xs \<Longrightarrow> (P (xs ! i) \<longrightarrow> P y) \<Longrightarrow> list_ex P (xs[i := y])"
  by (induction xs arbitrary: i) (auto split: nat.splits)

lemma past_disconnect_step:
  "thread_step sp t s = (t', s', as) \<Longrightarrow> past_disconnect t \<Longrightarrow> past_disconnect t'"
  by (cases t) (auto split: prod.splits)

lemma sys_step_disconnected:
  assumes "sys_step d ev c = Some c'" "disconnected c"
  shows "disconnected c'"
proof (cases ev)
  case (Step i sp)
  with assms(1) have i: "i < length (threads c)"
    by (auto simp: sys_step_def split: if_splits)
  obtain t' s' as where st: "thread_step sp (threads c ! i) (chand c) = (t', s', as)"
    by (cases "thread_step sp (threads c ! i) (chand c)") auto
  from assms(1) Step i st have c': "threads c' = (threads c)[i := t']"
    by (auto simp: sys_step_def split: if_splits)
  from assms(2) i past_disconnect_step [OF st] show ?thesis
    by (simp add: disconnected_def c' list_ex_update)
qed (use assms in \<open>auto simp: sys_step_def disconnected_def spawn_def split: if_splits option.splits\<close>)

lemma makes_busy_step:
  assumes "thread_step sp t s = (t', s', as)" "makes_busy t'"
  shows "makes_busy t \<or> call_count s = 0"
proof (cases t)
  case (CallData_Init po)
  show ?thesis
  proof (cases po)
    case None
    with CallData_Init assms show ?thesis by auto
  next
    case (Some p)
    with CallData_Init assms show ?thesis
      by (cases p) (auto simp: Let_def split: prod.splits if_splits)
  qed
next
  case (CallData_Destroy now po)
  with assms show ?thesis by (cases po) (auto split: prod.splits)
next
  case (IdleTimerCallback err po)
  with assms show ?thesis by (cases po) (auto split: prod.splits)
next
  case (StartTransportOp d po)
  show ?thesis
  proof (cases po)
    case None
    with StartTransportOp assms show ?thesis by auto
  next
    case (Some p)
    show ?thesis
    proof (cases p)
      case (Top_IncreaseCallCount q)
      with Some StartTransportOp assms show ?thesis
        by (cases q) (auto simp: Let_def split: prod.splits option.splits if_splits)
    qed (use Some StartTransportOp assms in \<open>auto split: if_splits\<close>)
  qed
qed

lemma number_none: "\<not> list_ex P ts \<Longrightarrow> number P ts = 0"
  unfolding number_def by (induction ts) auto

lemma overlap_inv_disconnected:
  assumes "overlap_inv c" "disconnected c"
  shows "1 \<le> call_count (chand c)"
proof -
  from assms(2) have "1 \<le> sum_list (map weight (threads c))"
    by (simp add: disconnected_def disconnected_weight)
  with assms(1) show ?thesis by (simp add: overlap_inv_def)
qed

lemma overlap_inv_parked:
  assumes "overlap_inv c" "disconnected c" "number makes_busy (threads c) \<le> 0"
  shows "state (chand c) = CALLS_ACTIVE \<or> state (chand c) = TIMER_PENDING_CALLS_ACTIVE"
proof -
  note one = overlap_inv_disconnected [OF assms(1,2)]
  from assms(1) have c: "consistent (call_count (chand c))
        (number makes_busy (threads c)) (number makes_idle (threads c))
        (number holds_PROCESSING (threads c))
        (number saw_IDLE (threads c)) (number saw_CALLS_ACTIVE (threads c))
        (state (chand c))"
    by (simp add: overlap_inv_def)
  from c one assms(3) number_nonneg [of makes_idle "threads c"]
    number_nonneg [of holds_PROCESSING "threads c"]
  show ?thesis unfolding consistent_def by (auto split: if_splits)
qed

lemma after_disconnect_step:
  assumes step: "sys_step d ev c = Some c'" and d: "d \<noteq> Any_Order" and inv: "overlap_inv c"
    and dis: "disconnected c" and none: "number makes_busy (threads c) \<le> 0"
  shows "number makes_busy (threads c') \<le> 0 \<and> enter_idles c' = enter_idles c"
proof -
  note k = sys_step_overlap_inv [OF step d inv]
  then have inv': "overlap_inv c'" by simp
  note dis' = sys_step_disconnected [OF step dis]
  note one = overlap_inv_disconnected [OF inv dis]
  note one' = overlap_inv_disconnected [OF inv' dis']
  have n: "number makes_busy (threads c') \<le> 0"
  proof (cases ev)
    case (Step i sp)
    with step have i: "i < length (threads c)"
      by (auto simp: sys_step_def split: if_splits)
    obtain t' s' as where st: "thread_step sp (threads c ! i) (chand c) = (t', s', as)"
      by (cases "thread_step sp (threads c ! i) (chand c)") auto
    from step Step i st have c': "threads c' = (threads c)[i := t']"
      by (auto simp: sys_step_def split: if_splits)
    from number_rest_nonneg [OF i, of makes_busy] none
    have old: "\<not> makes_busy (threads c ! i)" by (auto split: if_splits)
    with makes_busy_step [OF st] one have "\<not> makes_busy t'" by auto
    with old none i show ?thesis by (simp add: c' number_update)
  qed (use step none in \<open>auto simp: sys_step_def spawn_def number_snoc split: if_splits option.splits\<close>)
  from step have "perform ev c = Some c'" by (simp add: sys_step_def split: if_splits)
  from perform_log [OF this] have "enter_idles c \<le> enter_idles c'"
    by (auto simp: enter_idles_def)
  moreover have "\<not> enter_idles c < enter_idles c'"
  proof
    assume "enter_idles c < enter_idles c'"
    with k have p: "1 \<le> number holds_PROCESSING (threads c')" by simp
    from inv' have "consistent (call_count (chand c'))
        (number makes_busy (threads c')) (number makes_idle (threads c'))
        (number holds_PROCESSING (threads c'))
        (number saw_IDLE (threads c')) (number saw_CALLS_ACTIVE (threads c'))
        (state (chand c'))"
      by (simp add: overlap_inv_def)
    with p n one' number_nonneg [of makes_idle "threads c'"] show False
      by (simp add: consistent_def)
  qed
  ultimately have "enter_idles c' = enter_idles c" by simp
  with n show ?thesis by simp
qed

lemma after_disconnect_run:
  "run d evs c = Some c' \<Longrightarrow> d \<noteq> Any_Order \<Longrightarrow> overlap_inv c \<Longrightarrow> disconnected c \<Longrightarrow>
   number makes_busy (threads c) \<le> 0 \<Longrightarrow>
   overlap_inv c' \<and> disconnected c' \<and> number makes_busy (threads c') \<le> 0 \<and>
   enter_idles c' = enter_idles c"
proof (induction evs arbitrary: c)
  case Nil
  then show ?case by simp
next
  case (Cons ev evs)
  from Cons.prems(1) obtain c1
    where c1: "sys_step d ev c = Some c1" "run d evs c1 = Some c'"
    by (auto split: option.splits)
  from sys_step_overlap_inv [OF c1(1) Cons.prems(2,3)] have inv1: "overlap_inv c1" by simp
  note dis1 = sys_step_disconnected [OF c1(1) Cons.prems(4)]
  note s = after_disconnect_step [OF c1(1) Cons.prems(2,3,4,5)]
  from Cons.IH [OF c1(2) Cons.prems(2) inv1 dis1] s show ?case by simp
qed

text \<open>
  What the synthetic increment of a disconnect does achieve, under every
  interleaving: if no call that makes the channel busy is waiting once the disconnect
  has been performed (as when the \<open>fetch_add\<close> of the disconnect itself returned 0,
  or when nothing overlaps), then from there on the state is \<open>CALLS_ACTIVE\<close> or
  \<open>TIMER_PENDING_CALLS_ACTIVE\<close> and no further \<open>Enter_Idle\<close> is sent.
\<close>

lemma parked_unless_a_call_waits:
  assumes "d \<noteq> Any_Order"
    and "run d evs (initial_system timeout u) = Some c"
    and "disconnected c" and "\<not> list_ex makes_busy (threads c)"
    and "run d evs' c = Some c'"
  shows "(state (chand c') = CALLS_ACTIVE \<or> state (chand c') = TIMER_PENDING_CALLS_ACTIVE) \<and>
         enter_idles c' = enter_idles c"
proof -
  note inv = run_overlap_inv [OF assms(2,1) overlap_inv_initial]
  from assms(4) have "number makes_busy (threads c) \<le> 0" by (simp add: number_none)
  from after_disconnect_run [OF assms(5,1) inv assms(3) this]
  have *: "overlap_inv c'" "disconnected c'" "number makes_busy (threads c') \<le> 0"
    "enter_idles c' = enter_idles c" by simp_all
  from overlap_inv_parked [OF *(1,2,3)] *(4) show ?thesis by simp
qed

text \<open>
  Claim C6. The code does not keep the promise when the disconnect overlaps a timer
  callback. \<open>IncreaseCallCount\<close> waits for the callback to leave \<open>PROCESSING\<close> only
  when its \<open>fetch_add\<close> returned 0; the source's comments give \<open>PROCESSING\<close> as what
  blocks \<open>IncreaseCallCount()\<close> until \<open>EnterIdle()\<close> has finished and as what keeps
  the timer from being restarted after \<open>grpc_timer_cancel()\<close>. Here the timer
  callback has exchanged \<open>TIMER_PENDING\<close> for \<open>PROCESSING\<close> and a new call's
  \<open>IncreaseCallCount\<close> has performed its \<open>fetch_add\<close> and waits. Then a disconnect
  runs to its end: its \<open>fetch_add\<close> returns 1, so it does not wait, and
  \<open>grpc_timer_cancel\<close> finds the timer already fired. The disconnect has been
  performed, the state is \<open>PROCESSING\<close>, no \<open>Enter_Idle\<close> has been sent so far, and
  the next step of the callback sends it.
\<close>

theorem EnterIdle_after_disconnect:
  "run Matched
     [Call_Init, Step 0 False, Step 0 False, Step 0 False,
      Call_Destroy 5, Step 1 False, Step 1 False, Step 1 False, Step 1 False, Step 1 False,
      Timer_Fire, Step 2 False, Step 2 False, Call_Init, Step 3 False,
      Transport_Op True, Step 4 False, Step 4 False, Step 4 False, Step 4 False]
     (initial_system 1000 0) \<noteq> None \<and>
   disconnected (the (run Matched
     [Call_Init, Step 0 False, Step 0 False, Step 0 False,
      Call_Destroy 5, Step 1 False, Step 1 False, Step 1 False, Step 1 False, Step 1 False,
      Timer_Fire, Step 2 False, Step 2 False, Call_Init, Step 3 False,
      Transport_Op True, Step 4 False, Step 4 False, Step 4 False, Step 4 False]
     (initial_system 1000 0))) \<and>
   state (chand (the (run Matched
     [Call_Init, Step 0 False, Step 0 False, Step 0 False,
      Call_Destroy 5, Step 1 False, Step 1 False, Step 1 False, Step 1 False, Step 1 False,
      Timer_Fire, Step 2 False, Step 2 False, Call_Init, Step 3 False,
      Transport_Op True, Step 4 False, Step 4 False, Step 4 False, Step 4 False]
     (initial_system 1000 0)))) = PROCESSING \<and>
   enter_idles (the (run Matched
     [Call_Init, Step 0 False, Step 0 False, Step 0 False,
      Call_Destroy 5, Step 1 False, Step 1 False, Step 1 False, Step 1 False, Step 1 False,
      Timer_Fire, Step 2 False, Step 2 False, Call_Init, Step 3 False,
      Transport_Op True, Step 4 False, Step 4 False, Step 4 False, Step 4 False]
     (initial_system 1000 0))) = 0 \<and>
   run Matched [Step 2 False] (the (run Matched
     [Call_Init, Step 0 False, Step 0 False, Step 0 False,
      Call_Destroy 5, Step 1 False, Step 1 False, Step 1 False, Step 1 False, Step 1 False,
      Timer_Fire, Step 2 False, Step 2 False, Call_Init, Step 3 False,
      Transport_Op True, Step 4 False, Step 4 False, Step 4 False, Step 4 False]
     (initial_system 1000 0))) \<noteq> None \<and>
   enter_idles (the (run Matched [Step 2 False] (the (run Matched
     [Call_Init, Step 0 False, Step 0 False, Step 0 False,
      Call_Destroy 5, Step 1 False, Step 1 False, Step 1 False, Step 1 False, Step 1 False,
      Timer_Fire, Step 2 False, Step 2 False, Call_Init, Step 3 False,
      Transport_Op True, Step 4 False, Step 4 False, Step 4 False, Step 4 False]
     (initial_system 1000 0))))) = 1"
  by (simp add: run_simps disconnected_def enter_idles_def)


section \<open>The idle timeout and the wakeup-fd factory\<close>

text \<open>
  Claim C7, as stated, fails for a configured value below 0. The source passes the
  range \<open>[0, INT_MAX]\<close> to \<open>grpc_channel_arg_get_integer\<close>, which answers a
  \<open>client_idle_timeout_ms\<close> of -1 with the default \<open>INT_MAX\<close>: the value is not raised
  to 1000, and \<open>MaybeAddClientIdleFilter\<close> does not add the filter.
\<close>

theorem a_negative_timeout_is_not_raised:
  "GetClientIdleTimeout
     \<lparr>grpc_channel_args_find = map_of,
      grpc_channel_arg_get_integer = channel_arg_get_integer,
      grpc_channel_args_want_minimal_stack = (\<lambda>args. False),
      grpc_channel_stack_builder_get_channel_arguments = fst,
      grpc_channel_stack_builder_prepend_filter = (\<lambda>b name. (True, (fst b, name # snd b)))\<rparr>
     [(''client_idle_timeout_ms'', GRPC_ARG_INTEGER (- 1))] = 2147483647 \<and>
   MaybeAddClientIdleFilter
     \<lparr>grpc_channel_args_find = map_of,
      grpc_channel_arg_get_integer = channel_arg_get_integer,
      grpc_channel_args_want_minimal_stack = (\<lambda>args. False),
      grpc_channel_stack_builder_get_channel_arguments = fst,
      grpc_channel_stack_builder_prepend_filter = (\<lambda>b name. (True, (fst b, name # snd b)))\<rparr>
     ([(''client_idle_timeout_ms'', GRPC_ARG_INTEGER (- 1))], [''client_channel'']) =
     (True, ([(''client_idle_timeout_ms'', GRPC_ARG_INTEGER (- 1))], [''client_channel'']))"
  by (simp add: GetClientIdleTimeout_def MaybeAddClientIdleFilter_def channel_arg_get_integer_def
        GRPC_ARG_CLIENT_IDLE_TIMEOUT_MS_def DEFAULT_IDLE_TIMEOUT_MS_def INT_MAX_def
        MIN_IDLE_TIMEOUT_MS_def Let_def)

text \<open>
  Claim C7, amended. With \<open>grpc_channel_arg_get_integer\<close> as modelled, and whatever
  the other functions on channel arguments and on the builder do:
  \<open>GetClientIdleTimeout\<close> is at least 1000 ms; a configured integer in \<open>[0, 1000)\<close>
  is raised to 1000, one in \<open>[1000, INT_MAX]\<close> is kept, and one outside
  \<open>[0, INT_MAX]\<close> gives the default \<open>INT_MAX\<close>, as do an absent key and an argument
  that is not an integer. Whenever the timeout is \<open>INT_MAX\<close>,
  \<open>MaybeAddClientIdleFilter\<close> returns true without touching the builder: the filter
  is not added.
\<close>

theorem GetClientIdleTimeout_bounds:
  assumes "grpc_channel_arg_get_integer api = channel_arg_get_integer"
  shows "1000 \<le> GetClientIdleTimeout api args \<and>
    (\<forall>v. grpc_channel_args_find api args GRPC_ARG_CLIENT_IDLE_TIMEOUT_MS
            = Some (GRPC_ARG_INTEGER v) \<longrightarrow>
       (0 \<le> v \<and> v < 1000 \<longrightarrow> GetClientIdleTimeout api args = 1000) \<and>
       (1000 \<le> v \<and> v \<le> INT_MAX \<longrightarrow> GetClientIdleTimeout api args = v) \<and>
       (v < 0 \<or> INT_MAX < v \<longrightarrow> GetClientIdleTimeout api args = INT_MAX)) \<and>
    (grpc_channel_args_find api args GRPC_ARG_CLIENT_IDLE_TIMEOUT_MS = None \<longrightarrow>
       GetClientIdleTimeout api args = INT_MAX) \<and>
    ((\<forall>v. grpc_channel_args_find api args GRPC_ARG_CLIENT_IDLE_TIMEOUT_MS
            \<noteq> Some (GRPC_ARG_INTEGER v)) \<longrightarrow>
       GetClientIdleTimeout api args = INT_MAX) \<and>
    (GetClientIdleTimeout api (grpc_channel_stack_builder_get_channel_arguments api builder)
       = INT_MAX \<longrightarrow>
     MaybeAddClientIdleFilter api builder = (True, builder))"
proof -
  have other: "GetClientIdleTimeout api args = INT_MAX"
    if "\<forall>v. grpc_channel_args_find api args GRPC_ARG_CLIENT_IDLE_TIMEOUT_MS
              \<noteq> Some (GRPC_ARG_INTEGER v)"
  proof (cases "grpc_channel_args_find api args GRPC_ARG_CLIENT_IDLE_TIMEOUT_MS")
    case None
    with assms show ?thesis
      by (simp add: GetClientIdleTimeout_def channel_arg_get_integer_def
            MIN_IDLE_TIMEOUT_MS_def DEFAULT_IDLE_TIMEOUT_MS_def INT_MAX_def)
  next
    case (Some a)
    with that assms show ?thesis
      by (cases a)
         (simp_all add: GetClientIdleTimeout_def channel_arg_get_integer_def
            MIN_IDLE_TIMEOUT_MS_def DEFAULT_IDLE_TIMEOUT_MS_def INT_MAX_def)
  qed
  have rest: "1000 \<le> GetClientIdleTimeout api args \<and>
    (\<forall>v. grpc_channel_args_find api args GRPC_ARG_CLIENT_IDLE_TIMEOUT_MS
            = Some (GRPC_ARG_INTEGER v) \<longrightarrow>
       (0 \<le> v \<and> v < 1000 \<longrightarrow> GetClientIdleTimeout api args = 1000) \<and>
       (1000 \<le> v \<and> v \<le> INT_MAX \<longrightarrow> GetClientIdleTimeout api args = v) \<and>
       (v < 0 \<or> INT_MAX < v \<longrightarrow> GetClientIdleTimeout api args = INT_MAX)) \<and>
    (grpc_channel_args_find api args GRPC_ARG_CLIENT_IDLE_TIMEOUT_MS = None \<longrightarrow>
       GetClientIdleTimeout api args = INT_MAX) \<and>
    (GetClientIdleTimeout api (grpc_channel_stack_builder_get_channel_arguments api builder)
       = INT_MAX \<longrightarrow>
     MaybeAddClientIdleFilter api builder = (True, builder))"
    using assms
    by (simp add: GetClientIdleTimeout_def MaybeAddClientIdleFilter_def
          channel_arg_get_integer_def MIN_IDLE_TIMEOUT_MS_def DEFAULT_IDLE_TIMEOUT_MS_def
          INT_MAX_def Let_def)
  from rest other show ?thesis by blast
qed

theorem GetClientIdleTimeout_bounds_witness:
  "GetClientIdleTimeout
     \<lparr>grpc_channel_args_find = map_of,
      grpc_channel_arg_get_integer = channel_arg_get_integer,
      grpc_channel_args_want_minimal_stack = (\<lambda>args. False),
      grpc_channel_stack_builder_get_channel_arguments = fst,
      grpc_channel_stack_builder_prepend_filter = (\<lambda>b name. (True, (fst b, name # snd b)))\<rparr>
     [(''client_idle_timeout_ms'', GRPC_ARG_INTEGER 250)] = 1000 \<and>
   GetClientIdleTimeout
     \<lparr>grpc_channel_args_find = map_of,
      grpc_channel_arg_get_integer = channel_arg_get_integer,
      grpc_channel_args_want_minimal_stack = (\<lambda>args. False),
      grpc_channel_stack_builder_get_channel_arguments = fst,
      grpc_channel_stack_builder_prepend_filter = (\<lambda>b name. (True, (fst b, name # snd b)))\<rparr>
     [(''client_idle_timeout_ms'', GRPC_ARG_INTEGER 5000)] = 5000 \<and>
   GetClientIdleTimeout
     \<lparr>grpc_channel_args_find = map_of,
      grpc_channel_arg_get_integer = channel_arg_get_integer,
      grpc_channel_args_want_minimal_stack = (\<lambda>args. False),
      grpc_channel_stack_builder_get_channel_arguments = fst,
      grpc_channel_stack_builder_prepend_filter = (\<lambda>b name. (True, (fst b, name # snd b)))\<rparr>
     [] = 2147483647 \<and>
   MaybeAddClientIdleFilter
     \<lparr>grpc_channel_args_find = map_of,
      grpc_channel_arg_get_integer = channel_arg_get_integer,
      grpc_channel_args_want_minimal_stack = (\<lambda>args. False),
      grpc_channel_stack_builder_get_channel_arguments = fst,
      grpc_channel_stack_builder_prepend_filter = (\<lambda>b name. (True, (fst b, name # snd b)))\<rparr>
     ([], [''client_channel'']) = (True, ([], [''client_channel'']))"
proof -
  let ?api = "\<lparr>grpc_channel_args_find = map_of,
      grpc_channel_arg_get_integer = channel_arg_get_integer,
      grpc_channel_args_want_minimal_stack = (\<lambda>args. False),
      grpc_channel_stack_builder_get_channel_arguments = fst,
      grpc_channel_stack_builder_prepend_filter =
        (\<lambda>b name. (True, (fst b, name # snd b)))\<rparr>
      :: ((string \<times> grpc_arg_value) list, grpc_arg_value,
          (string \<times> grpc_arg_value) list \<times> string list) channel_api"
  have h: "grpc_channel_arg_get_integer ?api = channel_arg_get_integer" by simp
  have 1: "GetClientIdleTimeout ?api [(''client_idle_timeout_ms'', GRPC_ARG_INTEGER 250)] = 1000"
    using GetClientIdleTimeout_bounds
            [OF h, of "[(''client_idle_timeout_ms'', GRPC_ARG_INTEGER 250)]"]
    by (simp add: GRPC_ARG_CLIENT_IDLE_TIMEOUT_MS_def)
  have 2: "GetClientIdleTimeout ?api [(''client_idle_timeout_ms'', GRPC_ARG_INTEGER 5000)] = 5000"
    using GetClientIdleTimeout_bounds
            [OF h, of "[(''client_idle_timeout_ms'', GRPC_ARG_INTEGER 5000)]"]
    by (simp add: GRPC_ARG_CLIENT_IDLE_TIMEOUT_MS_def INT_MAX_def)
  have 3: "GetClientIdleTimeout ?api [] = 2147483647"
    using GetClientIdleTimeout_bounds [OF h, of "[]"] by (simp add: INT_MAX_def)
  have 4: "MaybeAddClientIdleFilter ?api ([], [''client_channel'']) =
             (True, ([], [''client_channel'']))"
    using GetClientIdleTimeout_bounds [OF h, of "[]" "([], [''client_channel''])"]
    by (simp add: INT_MAX_def)
  show ?thesis by (intro conjI 1 2 3 4)
qed

lemma first_writer_wins:
  "g \<noteq> None \<Longrightarrow> foldl (\<lambda>g factory. SetDefaultWakeupFdFactoryIfUnset factory g) g factories = g"
  by (induction factories) (auto simp: SetDefaultWakeupFdFactoryIfUnset_def)

text \<open>
  Claim C10, as stated, fails in its second half: a factory can be registered and
  \<open>CreateWakeupFd\<close> still return a NotFound error, because it returns whatever the
  registered factory returns. \<open>ConfigureDefaultWakeupFdFactories\<close> registers the pipe
  factory on a system where pipes work (eventfd being unsupported); when \<open>pipe()\<close>
  fails at the time of the first creation, \<open>CreatePipeWakeupFd\<close> answers NotFound.
\<close>

theorem NotFound_with_a_registered_factory:
  "SupportsWakeupFd
     (ConfigureDefaultWakeupFdFactories False False CreatePipeWakeupFd with_pipes None) \<and>
   CreateWakeupFd
     (ConfigureDefaultWakeupFdFactories False False CreatePipeWakeupFd with_pipes None)
     without_pipes = Inl (Status kNotFound ''Pipe wakeup fd is not supported'')"
  by (simp add: ConfigureDefaultWakeupFdFactories_def SetDefaultWakeupFdFactoryIfUnset_def
      CreateWakeupFd_def SupportsWakeupFd_def CreatePipeWakeupFd_def PipeWakeupFd_IsSupported_def
      PipeWakeupFd_Init_def SetSocketNonBlocking_def with_pipes_def without_pipes_def ok_def
      Let_def)

text \<open>
  Claim C10, amended. Once a factory is registered, any number of further calls of
  \<open>SetDefaultWakeupFdFactoryIfUnset\<close>, with any factories, leave it unchanged. With no
  factory registered \<open>CreateWakeupFd\<close> returns the error NotFound, "Wakeup-fd is not
  supported on this system"; with a factory registered it returns what that factory
  returns.
\<close>

theorem wakeup_fd_factory_first_writer_wins:
  "(g \<noteq> None \<longrightarrow>
      foldl (\<lambda>g factory. SetDefaultWakeupFdFactoryIfUnset factory g) g factories = g) \<and>
   CreateWakeupFd None os = Inl (Status kNotFound ''Wakeup-fd is not supported on this system'') \<and>
   CreateWakeupFd (Some factory) os = factory os"
  by (simp add: first_writer_wins CreateWakeupFd_def SupportsWakeupFd_def)

theorem wakeup_fd_factory_first_writer_wins_witness:
  "foldl (\<lambda>g factory. SetDefaultWakeupFdFactoryIfUnset factory g) (Some CreatePipeWakeupFd)
     [None, Some (\<lambda>os. Inl (Status kInternal [])), Some PipeWakeupFd_Init] =
     Some CreatePipeWakeupFd \<and>
   CreateWakeupFd (Some CreatePipeWakeupFd) with_pipes = CreatePipeWakeupFd with_pipes"
proof -
  note k = wakeup_fd_factory_first_writer_wins
          [of "Some CreatePipeWakeupFd"
              "[None, Some (\<lambda>os. Inl (Status kInternal [])), Some PipeWakeupFd_Init]"
              with_pipes CreatePipeWakeupFd]
  have "Some CreatePipeWakeupFd \<noteq> None" by simp
  with k show ?thesis by blast
qed

section \<open>Deadline tasks\<close>

lemma engine_inv_new: "engine_inv new_engine"
  by (simp add: engine_inv_def new_engine_def outcomes_def pending_def)

lemma inv_outcomes:
  "engine_inv e \<Longrightarrow> outcomes e h = (if h \<in> set (issued e) then 1 else 0)"
  unfolding engine_inv_def by blast

lemma not_issued:
  "engine_inv e \<Longrightarrow> h \<notin> set (issued e) \<Longrightarrow>
   count_list (invoked e) h = 0 \<and> count_list (cancelled e) h = 0 \<and>
   count_list (ready e) h = 0 \<and> \<not> pending e h"
proof -
  assume "engine_inv e" "h \<notin> set (issued e)"
  then have "outcomes e h = 0" by (simp add: inv_outcomes)
  then show ?thesis by (simp add: outcomes_def split: if_splits)
qed

lemma inv_run_at:
  assumes "engine_inv e" "run_at slot e = Some (h, e')"
  shows "engine_inv e'"
proof -
  from assms(2) have free: "\<not> scheduled e slot" and h: "h = (slot, generation e slot + 1)"
    and e': "e' = e\<lparr>generation := (generation e)(slot := generation e slot + 1),
                    scheduled := (scheduled e)(slot := True), issued := h # issued e\<rparr>"
    by (auto simp: run_at_def Let_def split: if_splits)
  from assms(1) have fresh: "h \<notin> set (issued e)"
    by (force simp: engine_inv_def h)
  note z = not_issued [OF assms(1) fresh]
  have out: "outcomes e' k = (if k = h then 1 else outcomes e k)" for k
    using free z by (cases k) (auto simp: outcomes_def pending_def e' h)
  from assms(1) have old:
    "\<forall>h \<in> set (issued e). 1 \<le> snd h \<and> snd h \<le> generation e (fst h)"
    "\<forall>slot. scheduled e slot \<longrightarrow> (slot, generation e slot) \<in> set (issued e)"
    "\<forall>h. outcomes e h = (if h \<in> set (issued e) then 1 else 0)"
    by (simp_all add: engine_inv_def)
  have 1: "\<forall>k \<in> set (issued e'). 1 \<le> snd k \<and> snd k \<le> generation e' (fst k)"
    using old(1) by (auto simp: e' h)
  have 2: "\<forall>s. scheduled e' s \<longrightarrow> (s, generation e' s) \<in> set (issued e')"
    using old(2) by (auto simp: e' h)
  have 3: "\<forall>k. outcomes e' k = (if k \<in> set (issued e') then 1 else 0)"
  proof
    fix k
    have "issued e' = h # issued e" by (simp add: e')
    with inv_outcomes [OF assms(1), of k] fresh
    show "outcomes e' k = (if k \<in> set (issued e') then 1 else 0)"
      by (auto simp: out)
  qed
  from 1 2 3 show ?thesis by (simp add: engine_inv_def)
qed

lemma inv_cancel:
  assumes "engine_inv e"
  shows "engine_inv (snd (cancel h e))"
proof (cases "pending e h")
  case False
  with assms show ?thesis by (simp add: cancel_def)
next
  case True
  define e' where "e' = e\<lparr>scheduled := (scheduled e)(fst h := False), cancelled := h # cancelled e\<rparr>"
  have out: "outcomes e' k = outcomes e k" for k
    using True by (cases k; cases h) (auto simp: outcomes_def pending_def e'_def)
  from assms have "engine_inv e'"
    by (simp add: engine_inv_def out) (simp add: e'_def)
  with True show ?thesis by (simp add: cancel_def e'_def)
qed

lemma inv_dispatch:
  assumes "engine_inv e"
  shows "engine_inv (dispatch slot e)"
proof (cases "scheduled e slot")
  case False
  with assms show ?thesis by (simp add: dispatch_def)
next
  case True
  define e' where "e' = e\<lparr>scheduled := (scheduled e)(slot := False),
                          ready := ready e @ [(slot, generation e slot)]\<rparr>"
  have out: "outcomes e' k = outcomes e k" for k
    using True by (cases k) (auto simp: outcomes_def pending_def e'_def)
  from assms have "engine_inv e'"
    by (simp add: engine_inv_def out) (simp add: e'_def)
  with True show ?thesis by (simp add: dispatch_def e'_def)
qed

lemma inv_execute:
  assumes "engine_inv e"
  shows "engine_inv (execute e)"
proof (cases "ready e")
  case Nil
  with assms show ?thesis by (simp add: execute_def)
next
  case (Cons h hs)
  define e' where "e' = e\<lparr>ready := hs, invoked := h # invoked e\<rparr>"
  have out: "outcomes e' k = outcomes e k" for k
    using Cons by (auto simp: outcomes_def pending_def e'_def)
  from assms have "engine_inv e'"
    by (simp add: engine_inv_def out) (simp add: e'_def)
  with Cons show ?thesis by (simp add: execute_def e'_def)
qed

lemma inv_apply_op: "engine_inv e \<Longrightarrow> apply_op x e = Some e' \<Longrightarrow> engine_inv e'"
  by (cases x) (auto simp: inv_cancel inv_dispatch inv_execute dest: inv_run_at)

lemma inv_apply_ops: "apply_ops xs e = Some e' \<Longrightarrow> engine_inv e \<Longrightarrow> engine_inv e'"
proof (induction xs arbitrary: e)
  case Nil
  then show ?case by simp
next
  case (Cons x xs)
  from Cons.prems(1) obtain e1 where e1: "apply_op x e = Some e1" "apply_ops xs e1 = Some e'"
    by (auto split: option.splits)
  from Cons.IH [OF e1(2) inv_apply_op [OF Cons.prems(2) e1(1)]] show ?case .
qed

lemma settled_apply_op:
  assumes "engine_inv e" "h \<in> set (issued e)" "\<not> pending e h" "apply_op x e = Some e'"
  shows "h \<in> set (issued e') \<and> \<not> pending e' h \<and>
         count_list (cancelled e') h = count_list (cancelled e) h"
proof -
  from assms(1,2) have le: "snd h \<le> generation e (fst h)"
    unfolding engine_inv_def by blast
  show ?thesis
  proof (cases x)
    case (RunAt slot)
    with assms(4) le assms(2,3) show ?thesis
      by (auto simp: run_at_def Let_def pending_def split: if_splits)
  next
    case (Cancel k)
    with assms(4) assms(2,3) show ?thesis
      by (auto simp: cancel_def pending_def split: if_splits)
  next
    case (Dispatch slot)
    with assms(4) assms(2,3) show ?thesis
      by (auto simp: dispatch_def pending_def split: if_splits)
  next
    case Execute
    with assms(4) assms(2,3) show ?thesis
      by (auto simp: execute_def pending_def split: list.splits)
  qed
qed

lemma settled_apply_ops:
  "apply_ops xs e = Some e' \<Longrightarrow> engine_inv e \<Longrightarrow> h \<in> set (issued e) \<Longrightarrow> \<not> pending e h \<Longrightarrow>
   h \<in> set (issued e') \<and> \<not> pending e' h \<and>
   count_list (cancelled e') h = count_list (cancelled e) h"
proof (induction xs arbitrary: e)
  case Nil
  then show ?case by simp
next
  case (Cons x xs)
  from Cons.prems(1) obtain e1 where e1: "apply_op x e = Some e1" "apply_ops xs e1 = Some e'"
    by (auto split: option.splits)
  note s = settled_apply_op [OF Cons.prems(2,3,4) e1(1)]
  note i = inv_apply_op [OF Cons.prems(2) e1(1)]
  from Cons.IH [OF e1(2) i] s show ?case by simp
qed

lemma execute_funpow:
  "length (ready e) = n \<Longrightarrow>
   (execute ^^ n) e = e\<lparr>ready := [], invoked := rev (ready e) @ invoked e\<rparr>"
proof (induction n arbitrary: e)
  case 0
  then show ?case by simp
next
  case (Suc n)
  then obtain h hs where r: "ready e = h # hs" by (cases "ready e") auto
  with Suc.prems have len: "length (ready (execute e)) = n" by (simp add: execute_def)
  have "(execute ^^ Suc n) e = (execute ^^ n) (execute e)"
    by (simp add: funpow_swap1)
  also have "\<dots> = (execute e)\<lparr>ready := [],
                 invoked := rev (ready (execute e)) @ invoked (execute e)\<rparr>"
    by (rule Suc.IH [OF len])
  also have "\<dots> = e\<lparr>ready := [], invoked := rev (ready e) @ invoked e\<rparr>"
    using r by (simp add: execute_def)
  finally show ?case .
qed

lemma drain_invoked:
  "ready (drain e) = [] \<and>
   count_list (invoked (drain e)) h = count_list (ready e) h + count_list (invoked e) h"
  by (simp add: drain_def execute_funpow)

lemmas engine_simps =
  new_engine_def run_at_def cancel_def dispatch_def execute_def pending_def Let_def

text \<open>
  Claim C8, as stated, fails for a second cancellation. The first \<open>cancel\<close> of a
  scheduled task returns true; the handle is then no longer valid, and a second
  \<open>cancel\<close> of it returns false although the closure is never invoked, whatever the
  engine does afterwards.
\<close>

theorem a_second_cancel_returns_false:
  "fst (cancel (0, 1) (the (apply_ops [RunAt 0] new_engine))) \<and>
   \<not> fst (cancel (0, 1) (the (apply_ops [RunAt 0, Cancel (0, 1)] new_engine))) \<and>
   count_list
     (invoked (drain (the (apply_ops [RunAt 0, Cancel (0, 1), Cancel (0, 1), Dispatch 0, Execute]
        new_engine))))
     (0, 1) = 0"
  by (simp add: engine_simps drain_def)

text \<open>
  Claim C8, amended. Take a task whose handle \<open>h\<close> the engine has given out, let
  \<open>cancel h\<close> return \<open>r\<close>, and let the engine do anything afterwards. If \<open>r\<close> is true
  the closure is never invoked, also not when the workers drain the ready queue. If
  \<open>r\<close> is false and no cancellation of \<open>h\<close> has returned true before, the closure has
  been dispatched: it is never invoked twice, and once the workers have drained the
  ready queue it has been invoked exactly once. If \<open>r\<close> is false because a
  cancellation of \<open>h\<close> has returned true before, the closure is never invoked. In
  every case, once the ready queue is drained, exactly one of the two has happened:
  the closure has run, or a cancellation has returned true.
\<close>

theorem cancel_decides_the_task:
  assumes "apply_ops xs new_engine = Some e"
    and "h \<in> set (issued e)"
    and "cancel h e = (r, e1)" and "apply_ops ys e1 = Some e2"
  shows "(r \<longrightarrow> count_list (invoked e2) h = 0 \<and> count_list (invoked (drain e2)) h = 0) \<and>
         (\<not> r \<and> count_list (cancelled e) h = 0 \<longrightarrow>
            count_list (invoked e2) h \<le> 1 \<and> count_list (invoked (drain e2)) h = 1) \<and>
         (\<not> r \<and> count_list (cancelled e) h \<noteq> 0 \<longrightarrow>
            count_list (invoked e2) h = 0 \<and> count_list (invoked (drain e2)) h = 0) \<and>
         count_list (invoked (drain e2)) h + count_list (cancelled e2) h = 1"
proof -
  note inv = inv_apply_ops [OF assms(1) engine_inv_new]
  from assms(3) have r: "r = pending e h" and e1: "e1 = snd (cancel h e)"
    by (auto simp: cancel_def split: if_splits)
  from inv_cancel [OF inv, of h] have inv1: "engine_inv e1" by (simp add: e1)
  from assms(2) have iss1: "h \<in> set (issued e1)"
    by (simp add: e1 cancel_def)
  have np1: "\<not> pending e1 h"
    by (simp add: e1 cancel_def pending_def)
  have c1: "count_list (cancelled e1) h = count_list (cancelled e) h + (if r then 1 else 0)"
    by (simp add: e1 r cancel_def)
  from inv_outcomes [OF inv, of h] assms(2) have o: "outcomes e h = 1" by simp
  then have rc: "r \<Longrightarrow> count_list (cancelled e) h = 0"
    by (simp add: outcomes_def r)
  note s = settled_apply_ops [OF assms(4) inv1 iss1 np1]
  note inv2 = inv_apply_ops [OF assms(4) inv1]
  from inv_outcomes [OF inv2, of h] s
  have sum: "count_list (invoked e2) h + count_list (cancelled e2) h + count_list (ready e2) h = 1"
    by (simp add: outcomes_def)
  from s c1 have c2: "count_list (cancelled e2) h = count_list (cancelled e) h + (if r then 1 else 0)"
    by simp
  note d = drain_invoked [of e2 h]
  show ?thesis
  proof (cases r)
    case True
    with rc c2 have "count_list (cancelled e2) h = 1" by simp
    with sum d True show ?thesis by simp
  next
    case False
    with c2 have "count_list (cancelled e2) h = count_list (cancelled e) h" by simp
    with sum d False show ?thesis by auto
  qed
qed

theorem cancel_decides_the_task_witness:
  "fst (cancel (0, 1) (the (apply_ops [RunAt 0, RunAt 1, Dispatch 1] new_engine))) \<and>
   count_list
     (invoked (drain (the (apply_ops [Execute, RunAt 0, Dispatch 0, Execute]
        (snd (cancel (0, 1) (the (apply_ops [RunAt 0, RunAt 1, Dispatch 1] new_engine))))))))
     (0, 1) = 0 \<and>
   \<not> fst (cancel (1, 1) (the (apply_ops [RunAt 0, RunAt 1, Dispatch 1] new_engine))) \<and>
   count_list
     (invoked (the (apply_ops [Dispatch 0]
        (snd (cancel (1, 1) (the (apply_ops [RunAt 0, RunAt 1, Dispatch 1] new_engine)))))))
     (1, 1) = 0 \<and>
   count_list
     (invoked (drain (the (apply_ops [Dispatch 0]
        (snd (cancel (1, 1) (the (apply_ops [RunAt 0, RunAt 1, Dispatch 1] new_engine))))))))
     (1, 1) = 1"
proof -
  let ?e = "the (apply_ops [RunAt 0, RunAt 1, Dispatch 1] new_engine)"
  let ?a = "snd (cancel (0, 1) ?e)"
  let ?a2 = "the (apply_ops [Execute, RunAt 0, Dispatch 0, Execute] ?a)"
  let ?b = "snd (cancel (1, 1) ?e)"
  let ?b2 = "the (apply_ops [Dispatch 0] ?b)"
  have e: "apply_ops [RunAt 0, RunAt 1, Dispatch 1] new_engine = Some ?e"
    by (simp add: engine_simps)
  have ia: "(0, 1) \<in> set (issued ?e)" and ib: "(1, 1) \<in> set (issued ?e)"
    by (simp_all add: engine_simps)
  have cb: "count_list (cancelled ?e) (1, 1) = 0"
    by (simp add: engine_simps)
  have ra: "fst (cancel (0, 1) ?e)" and rb: "\<not> fst (cancel (1, 1) ?e)"
    by (simp_all add: engine_simps)
  from ra have xa: "cancel (0, 1) ?e = (True, ?a)" by (cases "cancel (0, 1) ?e") simp
  from rb have xb: "cancel (1, 1) ?e = (False, ?b)" by (cases "cancel (1, 1) ?e") simp
  have ya: "apply_ops [Execute, RunAt 0, Dispatch 0, Execute] ?a = Some ?a2"
    by (simp add: engine_simps)
  have yb: "apply_ops [Dispatch 0] ?b = Some ?b2"
    by (simp add: engine_simps)
  have za: "count_list (invoked (drain ?a2)) (0, 1) = 0"
    using cancel_decides_the_task [OF e ia xa ya] by simp
  have zb: "count_list (invoked (drain ?b2)) (1, 1) = 1"
    using cancel_decides_the_task [OF e ib xb yb] cb by simp
  have nb: "count_list (invoked ?b2) (1, 1) = 0" by (simp add: engine_simps)
  show ?thesis by (intro conjI ra za rb nb zb)
qed

end
